theory Spec2Isabelle
  imports Complex_Main "HOL-Library.Word"
begin

unbundle bit_operations_syntax

section \<open>Values of the host language\<close>

text \<open>
  A Node \<open>Buffer\<close> is a sequence of bytes. A string is a sequence of UTF-16 code
  units. A number that went through a bitwise operator is a signed 32-bit integer; it is
  kept as the \<open>int\<close> that \<open>sint\<close> reads from the 32-bit word.
\<close>

type_synonym byte = "8 word"
type_synonym js_string = "16 word list"

definition str :: "string \<Rightarrow> js_string" where
  "str s = map of_char s"

definition backslash :: "16 word" where
  "backslash = 0x5C"

text \<open>\<open>String.fromCharCode(n)\<close>: the code unit \<open>n mod 2^16\<close>; \<open>undefined\<close> gives 0.\<close>

definition fromCharCode :: "int \<Rightarrow> 16 word" where
  "fromCharCode n = word_of_int n"

definition ToInt32 :: "int \<Rightarrow> 32 word" where
  "ToInt32 n = word_of_int n"

text \<open>\<open>a << n\<close>, \<open>a >> n\<close>, \<open>a | b\<close> and \<open>a & b\<close> on numbers.\<close>

definition js_shl :: "int \<Rightarrow> nat \<Rightarrow> int" where
  "js_shl a n = sint (push_bit (n mod 32) (ToInt32 a))"

definition js_sar :: "int \<Rightarrow> nat \<Rightarrow> int" where
  "js_sar a n = sint (signed_drop_bit (n mod 32) (ToInt32 a))"

definition js_or :: "int \<Rightarrow> int \<Rightarrow> int" where
  "js_or a b = sint (ToInt32 a OR ToInt32 b)"

definition js_and :: "int \<Rightarrow> int \<Rightarrow> int" where
  "js_and a b = sint (ToInt32 a AND ToInt32 b)"

text \<open>
  \<open>bytes[i]\<close> as an operand of a bitwise operator or of \<open>String.fromCharCode\<close>:
  an index past the end reads \<open>undefined\<close>, which both convert to 0.
\<close>

definition at0 :: "byte list \<Rightarrow> nat \<Rightarrow> int" where
  "at0 bytes i = (if i < length bytes then uint (bytes ! i) else 0)"

definition num0 :: "int list \<Rightarrow> nat \<Rightarrow> int" where
  "num0 xs i = (if i < length xs then xs ! i else 0)"

text \<open>\<open>buffer.slice(a, b)\<close> for non-negative \<open>a\<close> and \<open>b\<close>, clipped to the buffer.\<close>

definition sliceJS :: "'a list \<Rightarrow> nat \<Rightarrow> nat \<Rightarrow> 'a list" where
  "sliceJS xs a b = take (b - a) (drop a xs)"

section \<open>util.ts\<close>

definition guidFromIDLBytes :: "byte list \<Rightarrow> int list" where
  "guidFromIDLBytes bytes =
     [js_or (js_or (js_or (js_shl (at0 bytes 3) 24) (js_shl (at0 bytes 2) 16))
                   (js_shl (at0 bytes 1) 8)) (at0 bytes 0),
      js_or (js_shl (at0 bytes 5) 8) (at0 bytes 4),
      js_or (js_shl (at0 bytes 7) 8) (at0 bytes 6)]
     @ map uint (drop 8 bytes)"

definition hexToChar :: "int \<Rightarrow> 16 word" where
  "hexToChar num =
     (let num = js_and num 0xf
      in fromCharCode (if num > 9 then num - 10 + 0x61 else num + 0x30))"

definition formatGUID :: "int list \<Rightarrow> js_string" where
  "formatGUID guid =
     (let data = [js_sar (num0 guid 0) 24, js_sar (num0 guid 0) 16, js_sar (num0 guid 0) 8,
                  num0 guid 0,
                  js_sar (num0 guid 1) 8, num0 guid 1,
                  js_sar (num0 guid 2) 8, num0 guid 2] @ drop 3 guid;
          newData = concat (map (\<lambda>d. [js_sar d 4, d]) data);
          hexString = map hexToChar newData
      in str ''{'' @ take 8 hexString @ str ''-'' @ take 4 (drop 8 hexString) @ str ''-''
         @ take 4 (drop 12 hexString) @ str ''-'' @ take 4 (drop 16 hexString) @ str ''-''
         @ drop 20 hexString @ str ''}'')"

text \<open>
  \<open>readCString\<close>: the loop stops at the first zero code unit, and a read past the end
  gives \<open>undefined\<close>, which \<open>String.fromCharCode\<close> turns into the zero code unit: the
  loop always ends, at the latest one step after the last element.
\<close>

fun readCString_loop :: "byte list \<Rightarrow> js_string" where
  "readCString_loop [] = []"
| "readCString_loop (b # bs) =
     (let currentChar = fromCharCode (uint b)
      in if currentChar = 0 then [] else currentChar # readCString_loop bs)"

definition readCString :: "byte list \<Rightarrow> nat \<Rightarrow> js_string" where
  "readCString buffer offset = readCString_loop (drop offset buffer)"

text \<open>
  \<open>readCUnicode\<close> reads two bytes per step; a missing high or low byte is \<open>undefined\<close>
  and counts as 0 under \<open><<\<close> and \<open>|\<close>.
\<close>

fun readCUnicode_loop :: "byte list \<Rightarrow> js_string" where
  "readCUnicode_loop [] = []"
| "readCUnicode_loop [lo] =
     (let currentChar = fromCharCode (js_or (js_shl 0 8) (uint lo))
      in if currentChar = 0 then [] else [currentChar])"
| "readCUnicode_loop (lo # hi # bs) =
     (let currentChar = fromCharCode (js_or (js_shl (uint hi) 8) (uint lo))
      in if currentChar = 0 then [] else currentChar # readCUnicode_loop bs)"

definition readCUnicode :: "byte list \<Rightarrow> nat \<Rightarrow> js_string" where
  "readCUnicode buffer offset = readCUnicode_loop (drop offset buffer)"

definition readString :: "byte list \<Rightarrow> nat \<Rightarrow> nat \<Rightarrow> js_string" where
  "readString buffer offset len =
     map (\<lambda>i. fromCharCode (at0 buffer i)) [offset ..< offset + len]"

section \<open>Numbers as doubles\<close>

text \<open>
  A finite double is the rational it denotes. \<open>fl\<close> rounds a rational to the nearest
  double, ties to the even significand (53 bits, exponents from \<open>-1022\<close>). Every value
  this program computes from a 64-bit tick count is below \<open>2^65\<close> in magnitude, so the
  overflow to infinity is not part of the model.
\<close>

fun bit_length :: "nat \<Rightarrow> nat" where
  "bit_length n = (if n = 0 then 0 else Suc (bit_length (n div 2)))"

declare bit_length.simps [simp del]

definition ilog2 :: "rat \<Rightarrow> int" where
  "ilog2 x = (if 1 \<le> x then int (bit_length (nat \<lfloor>x\<rfloor>)) - 1
              else - int (bit_length (nat \<lceil>1 / x\<rceil> - 1)))"

definition pow2 :: "int \<Rightarrow> rat" where
  "pow2 k = (if 0 \<le> k then 2 ^ nat k else 1 / 2 ^ nat (- k))"

definition round_half_even :: "rat \<Rightarrow> int" where
  "round_half_even r =
     (let f = \<lfloor>r\<rfloor>; d = r - of_int f
      in if d < 1 / 2 then f else if 1 / 2 < d then f + 1 else if even f then f else f + 1)"

definition fl :: "rat \<Rightarrow> rat" where
  "fl x = (if x = 0 then 0
           else let e = max (ilog2 \<bar>x\<bar>) (- 1022); q = pow2 (e - 52)
                in of_int (round_half_even (x / q)) * q)"

definition js_div :: "rat \<Rightarrow> rat \<Rightarrow> rat" where
  "js_div a b = fl (a / b)"

definition js_sub :: "rat \<Rightarrow> rat \<Rightarrow> rat" where
  "js_sub a b = fl (a - b)"

definition js_mul :: "rat \<Rightarrow> rat \<Rightarrow> rat" where
  "js_mul a b = fl (a * b)"

text \<open>\<open>Number(n)\<close> of a BigInt.\<close>

definition Number :: "int \<Rightarrow> rat" where
  "Number n = fl (of_int n)"

text \<open>
  \<open>new Date(v)\<close> keeps the time value \<open>TimeClip(v)\<close>: \<open>v\<close> truncated towards zero, or
  \<open>NaN\<close> (an invalid date, \<open>None\<close>) when \<open>v\<close> is beyond \<open>8.64e15\<close> in magnitude.
\<close>

type_synonym js_date = "int option"

definition Date :: "rat \<Rightarrow> js_date" where
  "Date v = (if 8640000000000000 < \<bar>v\<bar> then None
             else Some (if 0 \<le> v then \<lfloor>v\<rfloor> else \<lceil>v\<rceil>))"

text \<open>
  \<open>dateFromFILETIME\<close>. Its first argument is what \<open>new Date().getTimezoneOffset()\<close>
  returns, in minutes; the source reads it from the environment.
\<close>

definition dateFromFILETIME :: "int \<Rightarrow> rat \<Rightarrow> js_date" where
  "dateFromFILETIME tz filetime =
     Date (js_sub (js_sub (js_div filetime 10000) (116444736 * 10 ^ 5))
                  (js_mul (js_mul (of_int tz) 60) 1000))"

section \<open>Reading from a Buffer\<close>

datatype error = RangeError | MethodNotImplemented | InvalidSignature

fun uintLE :: "byte list \<Rightarrow> nat" where
  "uintLE [] = 0"
| "uintLE (b # bs) = unat b + 256 * uintLE bs"

text \<open>Node's readers throw a \<open>RangeError\<close> when the bytes asked for are not all there.\<close>

definition readUIntLE :: "byte list \<Rightarrow> nat \<Rightarrow> nat \<Rightarrow> error + nat" where
  "readUIntLE buffer offset byteLength =
     (if offset + byteLength \<le> length buffer
      then Inr (uintLE (sliceJS buffer offset (offset + byteLength)))
      else Inl RangeError)"

definition readUInt16LE :: "byte list \<Rightarrow> nat \<Rightarrow> error + nat" where
  "readUInt16LE buffer offset = readUIntLE buffer offset 2"

definition readUInt32LE :: "byte list \<Rightarrow> nat \<Rightarrow> error + int" where
  "readUInt32LE buffer offset = map_sum id int (readUIntLE buffer offset 4)"

definition readInt32LE :: "byte list \<Rightarrow> nat \<Rightarrow> error + int" where
  "readInt32LE buffer offset =
     map_sum id (\<lambda>n. sint (word_of_nat n :: 32 word)) (readUIntLE buffer offset 4)"

definition readBigInt64LE :: "byte list \<Rightarrow> nat \<Rightarrow> error + int" where
  "readBigInt64LE buffer offset =
     map_sum id (\<lambda>n. sint (word_of_nat n :: 64 word)) (readUIntLE buffer offset 8)"

text \<open>\<open>buffer[i]\<close> where the value is kept as it is: \<open>undefined\<close> is \<open>None\<close>.\<close>

definition elem_at :: "byte list \<Rightarrow> nat \<Rightarrow> byte option" where
  "elem_at buffer i = (if i < length buffer then Some (buffer ! i) else None)"

section \<open>LinkTargetIDList.ts\<close>

definition MyComputer :: js_string where
  "MyComputer = str ''MY_COMPUTER''"

definition TargetRootGuids :: "(js_string \<times> js_string) list" where
  "TargetRootGuids = [(str ''{20D04FE0-3AEA-1069-A2D8-08002B30309D}'', MyComputer)]"

definition RootEntry :: byte where "RootEntry = 0x1f"
definition DriveLetter :: byte where "DriveLetter = 0x2f"
definition Directory :: byte where "Directory = 0x31"
definition DirectoryUnicode :: byte where "DirectoryUnicode = 0x35"
definition File :: byte where "File = 0x32"
definition FileUnicode :: byte where "FileUnicode = 0x36"
definition UserDirectory :: byte where "UserDirectory = 0x74"

text \<open>
  The item type is kept as the byte it was read from, whatever its value. The constructor
  has the default \<open>RootEntry\<close> for the item type, and a default parameter stands in
  whenever the argument is \<open>undefined\<close>: an item built from a read past the end of the
  buffer is a root entry.
\<close>

record LinkTargetIDItem =
  itemType :: byte
  itemValue :: "byte list"

definition new_LinkTargetIDItem :: "byte option \<Rightarrow> byte list \<Rightarrow> LinkTargetIDItem" where
  "new_LinkTargetIDItem ty val =
     \<lparr>itemType = (case ty of None \<Rightarrow> RootEntry | Some t \<Rightarrow> t), itemValue = val\<rparr>"

record LinkTargetIDList =
  valid :: bool
  items :: "LinkTargetIDItem list"
  cachedPath :: "js_string option"

text \<open>
  One turn of the \<open>for\<close> loop of \<open>getPath\<close>: the \<open>switch\<close> takes the first case that
  equals the item type, so the second \<open>Directory\<close> label is never reached, and an item of
  any other type leaves the path as it is. What \<open>console.log\<close> prints is not modelled.
\<close>

definition getPath_step :: "js_string \<Rightarrow> LinkTargetIDItem \<Rightarrow> error + js_string" where
  "getPath_step path item =
     (if itemType item = RootEntry then
        (let guid = guidFromIDLBytes (itemValue item);
             guidString = formatGUID guid
         in if guidString \<in> set (map fst TargetRootGuids)
            then (case map_of TargetRootGuids guidString of
                    Some label \<Rightarrow> Inr (path @ label)
                  | None \<Rightarrow> Inr path)
            else Inr path)
      else if itemType item = DriveLetter then
        Inr (path @ map (\<lambda>char. fromCharCode (uint char)) (sliceJS (itemValue item) 0 3))
      else if itemType item = Directory then
        (let readOffset = 11;
             shortName = readCString (itemValue item) readOffset
         in Inr (path @ shortName @ [backslash]))
      else if itemType item = UserDirectory then
        (let signature = readString (itemValue item) 3 4
         in if signature = str ''CF'' @ [0, 0] then Inl MethodNotImplemented
            else if signature = str ''CFSF'' then
              (let folderName = readCString (itemValue item) 21
               in Inr (path @ str ''%USERPROFILE%'' @ [backslash] @ folderName @ [backslash]))
            else Inl InvalidSignature)
      else if itemType item = File \<or> itemType item = Directory
              \<or> itemType item = FileUnicode \<or> itemType item = DirectoryUnicode then
        (let isUnicode = (itemType item = DirectoryUnicode \<or> itemType item = FileUnicode);
             isDirectory = (itemType item = DirectoryUnicode \<or> itemType item = Directory);
             path = path @ (if isUnicode then readCUnicode else readCString) (itemValue item) 11
         in Inr (if isDirectory then path @ [backslash] else path))
      else Inr path)"

fun getPath_loop :: "js_string \<Rightarrow> LinkTargetIDItem list \<Rightarrow> error + js_string" where
  "getPath_loop path [] = Inr path"
| "getPath_loop path (item # rest) =
     (case getPath_step path item of
        Inl e \<Rightarrow> Inl e
      | Inr path' \<Rightarrow> getPath_loop path' rest)"

text \<open>\<open>getPath\<close> returns the path and leaves it in \<open>cachedPath\<close>.\<close>

definition getPath :: "LinkTargetIDList \<Rightarrow> error + (js_string \<times> LinkTargetIDList)" where
  "getPath l =
     (case getPath_loop [] (items l) of
        Inl e \<Rightarrow> Inl e
      | Inr path \<Rightarrow> Inr (path, l\<lparr>cachedPath := Some path\<rparr>))"

text \<open>
  The \<open>while\<close> loop of \<open>parse\<close>, with its three variables and the items pushed so far.
  An item size of 0 leaves all three as they were, and the loop never ends: the result is
  \<open>None\<close>. After \<open>readOffset += 2\<close> the cursor is at least 2, so adding
  \<open>shellItemSize - 2\<close> never takes it below 0.
\<close>

partial_function (option) parse_loop ::
  "byte list \<Rightarrow> nat \<Rightarrow> int \<Rightarrow> LinkTargetIDItem list
     \<Rightarrow> (error + LinkTargetIDItem list \<times> nat \<times> int) option" where
  "parse_loop buffer readOffset remainingBytes items_acc =
     (if 2 < remainingBytes then
        (case readUInt16LE buffer readOffset of
           Inl e \<Rightarrow> Some (Inl e)
         | Inr shellItemSize \<Rightarrow>
             (let readOffset = readOffset + 2;
                  items_acc = items_acc @
                    [new_LinkTargetIDItem (elem_at buffer readOffset)
                       (sliceJS buffer (readOffset + 1) (readOffset + shellItemSize + 1))];
                  remainingBytes = remainingBytes - int shellItemSize;
                  readOffset = readOffset + shellItemSize - 2
              in parse_loop buffer readOffset remainingBytes items_acc))
      else Some (Inr (items_acc, readOffset, remainingBytes)))"

declare parse_loop.simps [code]

definition LinkTargetIDList_parse :: "byte list \<Rightarrow> (error + LinkTargetIDList) option" where
  "LinkTargetIDList_parse buffer =
     (case readUIntLE buffer 0 2 of
        Inl e \<Rightarrow> Some (Inl e)
      | Inr idListSize \<Rightarrow>
          (case parse_loop buffer 2 (int idListSize) [] of
             None \<Rightarrow> None
           | Some (Inl e) \<Rightarrow> Some (Inl e)
           | Some (Inr (items_acc, readOffset, remainingBytes)) \<Rightarrow>
               Some (Inr \<lparr>valid = True, items = items_acc, cachedPath = None\<rparr>)))"

section \<open>LNKParser.ts\<close>

definition VALID_HEADER_SIZE :: int where
  "VALID_HEADER_SIZE = 0x4c"

definition VALID_LINK_CLSID :: "int list" where
  "VALID_LINK_CLSID = [136193, 0, 0, 192, 0, 0, 0, 0, 0, 0, 70]"

definition Normal :: int where "Normal = 0x00000001"
definition Maximized :: int where "Maximized = 0x00000003"
definition MinimizedWithoutFocus :: int where "MinimizedWithoutFocus = 0x00000007"

text \<open>
  \<open>Object.values(ShowCommands)\<close>: a numeric enum compiles to an object that maps each
  name to its number and each number back to its name, so the values are three names and
  three numbers.
\<close>

definition ShowCommands_values :: "(string + int) list" where
  "ShowCommands_values =
     [Inl ''Normal'', Inl ''Maximized'', Inl ''MinimizedWithoutFocus'',
      Inr Normal, Inr Maximized, Inr MinimizedWithoutFocus]"

definition arrayEquals :: "'a list \<Rightarrow> 'a list \<Rightarrow> bool" where
  "arrayEquals arr1 arr2 =
     (length arr1 = length arr2 \<and> list_all (\<lambda>i. arr2 ! i = arr1 ! i) [0 ..< length arr1])"

record LNKIcon =
  location :: js_string
  iconIndex :: int

text \<open>
  Modelled from the spec: \<open>HotKeyFlags\<close>, whose source file is not part of the sources at
  hand. The spec describes a hotkey as a key code and a modifier bit field; the
  constructor receives \<open>buffer[offset + 64]\<close> and \<open>buffer[offset + 65]\<close>.
\<close>

record HotKeyFlags =
  keyCode :: "byte option"
  modifierFlags :: "byte option"

record LNKFile =
  headerSize :: int
  linkCLSID :: "int list"
  linkFlags :: int
  targetAttributeFlags :: int
  targetCreationDate :: js_date
  targetAccessDate :: js_date
  targetWriteDate :: js_date
  targetFileSize :: int
  valid :: bool
  icon :: "LNKIcon option"
  showCommand :: int
  hotKey :: HotKeyFlags
  target :: "js_string + LinkTargetIDList"

record LNKParser =
  offset :: nat
  buffer :: "byte list"

definition new_LNKParser :: "byte list \<Rightarrow> LNKParser" where
  "new_LNKParser buf = \<lparr>offset = 0, buffer = buf\<rparr>"

definition readGUID_IDL :: "bool \<Rightarrow> nat \<Rightarrow> LNKParser \<Rightarrow> int list \<times> LNKParser" where
  "readGUID_IDL advance loc this =
     (let guid = sliceJS (buffer this) loc (loc + 16);
          this = (if advance then this\<lparr>offset := offset this + 16\<rparr> else this)
      in (guidFromIDLBytes guid, this))"

definition readFileTime :: "int \<Rightarrow> bool \<Rightarrow> nat \<Rightarrow> LNKParser \<Rightarrow> error + js_date" where
  "readFileTime tz advance offs this =
     map_sum id (\<lambda>n. dateFromFILETIME tz (Number n)) (readBigInt64LE (buffer this) offs)"

text \<open>
  A method returns its result, or what it throws, together with the parser object as the
  call leaves it. \<open>attempt\<close> is a read that may throw, followed by the rest of the method.
\<close>

definition attempt ::
  "LNKParser \<Rightarrow> error + 'a \<Rightarrow> ('a \<Rightarrow> ((error + 'b) \<times> LNKParser) option)
     \<Rightarrow> ((error + 'b) \<times> LNKParser) option" where
  "attempt this m f = (case m of Inl e \<Rightarrow> Some (Inl e, this) | Inr v \<Rightarrow> f v)"

definition parseHeader ::
  "int \<Rightarrow> bool \<Rightarrow> LNKParser \<Rightarrow> ((error + LNKFile) \<times> LNKParser) option" where
  "parseHeader tz advance this =
     attempt this (readInt32LE (buffer this) (offset this)) (\<lambda>headerSize.
     let valid = True;
         readOffset = 4;
         valid = (if headerSize \<noteq> VALID_HEADER_SIZE then False else valid);
         (linkCLSID, this) = readGUID_IDL False (offset this + readOffset) this;
         readOffset = readOffset + 16;
         valid = (if \<not> arrayEquals linkCLSID VALID_LINK_CLSID then False else valid)
     in
     attempt this (readInt32LE (buffer this) (offset this + readOffset)) (\<lambda>linkFlags.
     let readOffset = readOffset + 4 in
     attempt this (readInt32LE (buffer this) (offset this + readOffset)) (\<lambda>targetAttributeFlags.
     let readOffset = readOffset + 4 in
     attempt this (readFileTime tz False (offset this + readOffset) this) (\<lambda>targetCreationDate.
     let readOffset = readOffset + 8 in
     attempt this (readFileTime tz False (offset this + readOffset) this) (\<lambda>targetAccessDate.
     let readOffset = readOffset + 8 in
     attempt this (readFileTime tz False (offset this + readOffset) this) (\<lambda>targetWriteDate.
     let readOffset = readOffset + 8 in
     attempt this (readUInt32LE (buffer this) (offset this + readOffset)) (\<lambda>targetFileSize.
     let readOffset = readOffset + 4 in
     attempt this (readInt32LE (buffer this) (offset this + readOffset)) (\<lambda>iconIndex.
     let icon = \<lparr>location = [], iconIndex = iconIndex\<rparr>;
         readOffset = readOffset + 4 in
     attempt this (readUInt32LE (buffer this) (offset this + readOffset)) (\<lambda>showCommand.
     let readOffset = readOffset + 4;
         showCommand = (if Inr showCommand \<notin> set ShowCommands_values then Normal else showCommand);
         hotKey = \<lparr>keyCode = elem_at (buffer this) (offset this + readOffset),
                   modifierFlags = elem_at (buffer this) (offset this + readOffset + 1)\<rparr>;
         readOffset = readOffset + 12
     in
     case LinkTargetIDList_parse (drop (offset this + readOffset) (buffer this)) of
       None \<Rightarrow> None
     | Some (Inl e) \<Rightarrow> Some (Inl e, this)
     | Some (Inr idList) \<Rightarrow>
         attempt this (getPath idList) (\<lambda>(path, target).
         let readOffset = (if advance then readOffset + nat VALID_HEADER_SIZE else readOffset)
         in Some (Inr \<lparr>headerSize = headerSize, linkCLSID = linkCLSID, linkFlags = linkFlags,
                         targetAttributeFlags = targetAttributeFlags,
                         targetCreationDate = targetCreationDate,
                         targetAccessDate = targetAccessDate,
                         targetWriteDate = targetWriteDate,
                         targetFileSize = targetFileSize, valid = valid, icon = Some icon,
                         showCommand = showCommand, hotKey = hotKey,
                         target = Inr target\<rparr>, this)))))))))))"

definition parse :: "int \<Rightarrow> LNKParser \<Rightarrow> ((error + LNKFile) \<times> LNKParser) option" where
  "parse tz this = parseHeader tz True this"

section \<open>The registry string of a GUID, read back\<close>

text \<open>
  The pattern \<open>{8hex-4hex-4hex-4hex-12hex}\<close> with lowercase digits, and the bytes that
  the 32 hex digits stand for, put back in wire order: the first field little-endian on
  4 bytes, the next two little-endian on 2 bytes each, the last 8 bytes as they are.
\<close>

definition is_lower_hex :: "16 word \<Rightarrow> bool" where
  "is_lower_hex c = ((0x30 \<le> unat c \<and> unat c \<le> 0x39) \<or> (0x61 \<le> unat c \<and> unat c \<le> 0x66))"

definition hex_value :: "16 word \<Rightarrow> nat" where
  "hex_value c = (if unat c \<le> 0x39 then unat c - 0x30 else unat c - 0x61 + 10)"

definition guid_hex_digits :: "js_string \<Rightarrow> js_string" where
  "guid_hex_digits s = take 8 (drop 1 s) @ take 4 (drop 10 s) @ take 4 (drop 15 s)
                       @ take 4 (drop 20 s) @ take 12 (drop 25 s)"

definition guid_pattern :: "js_string \<Rightarrow> bool" where
  "guid_pattern s = (length s = 38 \<and> s ! 0 = 0x7B \<and> s ! 9 = 0x2D \<and> s ! 14 = 0x2D
       \<and> s ! 19 = 0x2D \<and> s ! 24 = 0x2D \<and> s ! 37 = 0x7D
       \<and> list_all is_lower_hex (guid_hex_digits s))"

fun hex_bytes :: "js_string \<Rightarrow> byte list" where
  "hex_bytes (hi # lo # cs) = word_of_nat (16 * hex_value hi + hex_value lo) # hex_bytes cs"
| "hex_bytes _ = []"

definition guid_wire_bytes :: "js_string \<Rightarrow> byte list" where
  "guid_wire_bytes s =
     (let d = hex_bytes (guid_hex_digits s)
      in rev (take 4 d) @ rev (take 2 (drop 4 d)) @ rev (take 2 (drop 6 d)) @ drop 8 d)"

text \<open>Auxiliary notions for the proofs: the low byte of a number and the two hex digits of a byte.\<close>

definition lowbyte :: "int \<Rightarrow> byte" where
  "lowbyte d = ucast (ToInt32 d)"

definition hexdigit :: "byte \<Rightarrow> 16 word" where
  "hexdigit n = word_of_int (if uint n > 9 then uint n + 0x57 else uint n + 0x30)"

definition hex2 :: "byte \<Rightarrow> js_string" where
  "hex2 b = [hexdigit (drop_bit 4 b), hexdigit (take_bit 4 b)]"

section \<open>Well-formed ID lists\<close>

text \<open>
  A well-formed ID list, built from its items. An item is a tag and a payload; its frame
  is the 2-byte little-endian item size (which counts the size field and the tag), the tag
  and the payload, so every item size is at least 3. The list is the 2-byte size prefix,
  the frames and the 2-byte terminator; the prefix holds the sum of the item sizes plus 2
  for the terminator. \<open>parsed_items\<close> is the sequence of items that the loop of \<open>parse\<close>
  pushes when it meets these frames from position \<open>pos\<close> on.
\<close>

definition le16 :: "nat \<Rightarrow> byte list" where
  "le16 n = [word_of_nat (n mod 256), word_of_nat (n div 256)]"

definition frame_size :: "byte \<times> byte list \<Rightarrow> nat" where
  "frame_size f = length (snd f) + 3"

definition frame :: "byte \<times> byte list \<Rightarrow> byte list" where
  "frame f = le16 (frame_size f) @ [fst f] @ snd f"

definition frames_size :: "(byte \<times> byte list) list \<Rightarrow> nat" where
  "frames_size fs = sum_list (map frame_size fs)"

definition idlist_bytes :: "(byte \<times> byte list) list \<Rightarrow> byte list" where
  "idlist_bytes fs = le16 (frames_size fs + 2) @ concat (map frame fs) @ [0, 0]"

fun parsed_items :: "byte list \<Rightarrow> nat \<Rightarrow> (byte \<times> byte list) list \<Rightarrow> LinkTargetIDItem list" where
  "parsed_items buf pos [] = []"
| "parsed_items buf pos (f # fs) =
     \<lparr>itemType = fst f, itemValue = sliceJS buf (pos + 3) (pos + 3 + frame_size f)\<rparr>
     # parsed_items buf (pos + frame_size f) fs"

section \<open>Auxiliary notions for the header proofs\<close>

text \<open>
  What \<open>parseHeader\<close> stores in each field when every read succeeds, written as
  functions of the buffer, and the 20 bytes that a valid header starts with.
\<close>

definition int32_at :: "byte list \<Rightarrow> nat \<Rightarrow> int" where
  "int32_at buf i = sint (word_of_nat (uintLE (sliceJS buf i (i + 4))) :: 32 word)"

definition uint32_at :: "byte list \<Rightarrow> nat \<Rightarrow> int" where
  "uint32_at buf i = int (uintLE (sliceJS buf i (i + 4)))"

definition filetime_at :: "int \<Rightarrow> byte list \<Rightarrow> nat \<Rightarrow> js_date" where
  "filetime_at tz buf i =
     dateFromFILETIME tz (Number (sint (word_of_nat (uintLE (sliceJS buf i (i + 8))) :: 64 word)))"

definition normalize_showCommand :: "int \<Rightarrow> int" where
  "normalize_showCommand v = (if v = 1 \<or> v = 3 \<or> v = 7 then v else 1)"

definition header_of :: "int \<Rightarrow> LNKParser \<Rightarrow> LinkTargetIDList \<Rightarrow> LNKFile" where
  "header_of tz this tgt =
     (let buf = buffer this; i = offset this in
      \<lparr>headerSize = int32_at buf i,
       linkCLSID = guidFromIDLBytes (sliceJS buf (i + 4) (i + 20)),
       linkFlags = int32_at buf (i + 20),
       targetAttributeFlags = int32_at buf (i + 24),
       targetCreationDate = filetime_at tz buf (i + 28),
       targetAccessDate = filetime_at tz buf (i + 36),
       targetWriteDate = filetime_at tz buf (i + 44),
       targetFileSize = uint32_at buf (i + 52),
       valid = (int32_at buf i = 76 \<and> guidFromIDLBytes (sliceJS buf (i + 4) (i + 20)) = VALID_LINK_CLSID),
       icon = Some \<lparr>location = [], iconIndex = int32_at buf (i + 56)\<rparr>,
       showCommand = normalize_showCommand (uint32_at buf (i + 60)),
       hotKey = \<lparr>keyCode = elem_at buf (i + 64), modifierFlags = elem_at buf (i + 65)\<rparr>,
       target = Inr tgt\<rparr>)"

definition header_magic :: "byte list" where
  "header_magic = [0x4C, 0, 0, 0,
                   0x01, 0x14, 0x02, 0x00, 0x00, 0x00, 0x00, 0x00,
                   0xC0, 0x00, 0x00, 0x00, 0x00, 0x00, 0x00, 0x46]"


text \<open>
  A smallest well-formed file: the 76-byte header with the declared size 76, the class
  identifier, link flags 0, attribute flags 0, three zero timestamps, target size 0, icon
  index 0, show command 1, hot key 0 and ten reserved zero bytes, then the ID list with the
  size prefix 2. \<open>minimal_record\<close> is what \<open>parse\<close> returns for it when the timezone
  offset is 0.
\<close>

definition minimal_header :: "byte list" where
  "minimal_header =
     [0x4C, 0, 0, 0,
      0x01, 0x14, 0x02, 0x00, 0x00, 0x00, 0x00, 0x00, 0xC0, 0x00, 0x00, 0x00, 0x00, 0x00, 0x00, 0x46,
      0, 0, 0, 0,
      0, 0, 0, 0,
      0, 0, 0, 0, 0, 0, 0, 0,
      0, 0, 0, 0, 0, 0, 0, 0,
      0, 0, 0, 0, 0, 0, 0, 0,
      0, 0, 0, 0,
      0, 0, 0, 0,
      1, 0, 0, 0,
      0, 0,
      0, 0, 0, 0, 0, 0, 0, 0, 0, 0]"

definition minimal_lnk :: "byte list" where
  "minimal_lnk = minimal_header @ [2, 0]"

definition minimal_record :: LNKFile where
  "minimal_record =
     \<lparr>headerSize = 76, linkCLSID = [136193, 0, 0, 192, 0, 0, 0, 0, 0, 0, 70],
      linkFlags = 0, targetAttributeFlags = 0,
      targetCreationDate = Some (- 11644473600000),
      targetAccessDate = Some (- 11644473600000),
      targetWriteDate = Some (- 11644473600000),
      targetFileSize = 0, valid = True, icon = Some \<lparr>location = [], iconIndex = 0\<rparr>,
      showCommand = 1, hotKey = \<lparr>keyCode = Some 0, modifierFlags = Some 0\<rparr>,
      target = Inr \<lparr>LinkTargetIDList.valid = True, items = [], cachedPath = Some []\<rparr>\<rparr>"

section \<open>Concrete items and lists\<close>

text \<open>
  A drive-letter item for the drive C, a user-directory item with the signature of ZIP file
  contents, one with the signature \<open>CFSF\<close> and the folder name \<open>Desktop\<close> at offset 21,
  a freshly parsed list holding given items, and the bytes of a well-formed ID list with
  two items (sizes 4 and 5, size prefix 4 + 5 + 2).
\<close>

definition driveLetter_C :: LinkTargetIDItem where
  "driveLetter_C = \<lparr>itemType = DriveLetter, itemValue = [0x43, 0x3A, 0x5C]\<rparr>"



definition list_of_items :: "LinkTargetIDItem list \<Rightarrow> LinkTargetIDList" where
  "list_of_items its = \<lparr>LinkTargetIDList.valid = True, items = its, cachedPath = None\<rparr>"

definition two_item_list :: "byte list" where
  "two_item_list = [11, 0,  4, 0, 0x2f, 0x43,  5, 0, 0x32, 0x41, 0x42,  0, 0]"

section \<open>Properties of the GUID decoder and formatter\<close>

lemma ToInt32_sint [simp]: "ToInt32 (sint w) = w" by (simp add: ToInt32_def)
lemma ToInt32_uint8 [simp]: "ToInt32 (uint (b::byte)) = ucast b" by (simp add: ToInt32_def)

lemma and15: "(w :: 'a::len word) AND 15 = take_bit 4 w"
  by (simp add: take_bit_eq_mask mask_eq_exp_minus_1)

lemma ToInt32_15 [simp]: "ToInt32 15 = 15" by (simp add: ToInt32_def)

lemma sint_small: "uint (w::32 word) < 2^31 \<Longrightarrow> sint w = uint w"
proof -
  assume a: "uint w < 2^31"
  have "- (2 ^ 31) \<le> (0::int)" by simp
  also have "0 \<le> uint w" by simp
  finally have "signed_take_bit 31 (uint w) = uint w"
    using a by (intro signed_take_bit_int_eq_self) simp_all
  then show ?thesis by (simp only: sint_uint) simp
qed

lemma uint_ucast_byte: "uint (ucast (b::byte) :: 32 word) = uint b"
proof -
  have "uint b < 2 ^ 8" using unsigned_less [of b] by simp
  then have "uint b < 2 ^ 32" by simp
  moreover have "0 \<le> uint b" by simp
  ultimately show ?thesis by (simp add: unsigned_ucast_eq take_bit_int_eq_self)
qed

lemma nibble_lt16: "uint (take_bit 4 (w::'a::len word)) < 16"
proof -
  have "uint (take_bit 4 w) = take_bit 4 (uint w)" by (simp add: unsigned_take_bit_eq)
  also have "\<dots> < 2 ^ 4" by (rule take_bit_int_less_exp)
  finally show ?thesis by simp
qed

lemma hexToChar_nibble:
  "hexToChar d = (let n = uint (take_bit 4 (ToInt32 d)) in word_of_int (if n > 9 then n + 0x57 else n + 0x30))"
proof -
  let ?w = "take_bit 4 (ToInt32 d)"
  have lt: "uint ?w < 16" by (rule nibble_lt16)
  then have "uint ?w < 2 ^ 31" by simp
  then have s: "sint ?w = uint ?w"
    by (rule sint_small)
  show ?thesis
    by (simp add: hexToChar_def js_and_def fromCharCode_def and15 Let_def s)
qed

lemma take4_low: "uint (take_bit 4 (ToInt32 d)) = uint (take_bit 4 (lowbyte d))"
proof -
  have "take_bit 4 (ToInt32 d) = ucast (take_bit 4 (ucast (ToInt32 d) :: byte))"
    by (rule bit_word_eqI) (auto simp: bit_simps dest: bit_imp_le_length)
  then show ?thesis
    by (simp only: lowbyte_def uint_ucast_byte)
qed

lemma take4_sar: "uint (take_bit 4 (ToInt32 (js_sar d 4))) = uint (drop_bit 4 (lowbyte d))"
proof -
  have "take_bit 4 (signed_drop_bit 4 (ToInt32 d)) = ucast (drop_bit 4 (ucast (ToInt32 d) :: byte))"
    by (rule bit_word_eqI) (auto simp: bit_simps dest: bit_imp_le_length)
  then have "uint (take_bit 4 (signed_drop_bit 4 (ToInt32 d))) = uint (drop_bit 4 (lowbyte d))"
    by (simp only: lowbyte_def uint_ucast_byte)
  then show ?thesis
    by (simp add: js_sar_def)
qed

lemma hex_pair: "map hexToChar [js_sar d 4, d] = hex2 (lowbyte d)"
proof -
  have 1: "hexToChar (js_sar d 4) = hexdigit (drop_bit 4 (lowbyte d))"
    by (simp only: hexToChar_nibble take4_sar hexdigit_def Let_def)
  have 2: "hexToChar d = hexdigit (take_bit 4 (lowbyte d))"
    by (simp only: hexToChar_nibble take4_low hexdigit_def Let_def)
  show ?thesis by (simp add: 1 2 hex2_def)
qed


lemma ToInt32_js_or_shl:
  "ToInt32 (js_or (js_or (js_or (js_shl (uint b3) 24) (js_shl (uint b2) 16)) (js_shl (uint b1) 8)) (uint (b0::byte)))
     = ((push_bit 24 (ucast (b3::byte)) OR push_bit 16 (ucast (b2::byte))) OR push_bit 8 (ucast (b1::byte))) OR ucast b0"
  by (simp add: js_or_def js_shl_def)

lemma ToInt32_js_or_shl16:
  "ToInt32 (js_or (js_shl (uint b1) 8) (uint (b0::byte))) = push_bit 8 (ucast (b1::byte)) OR ucast b0"
  by (simp add: js_or_def js_shl_def)

lemma lowbyte_sar: "lowbyte (js_sar d n) = ucast (signed_drop_bit (n mod 32) (ToInt32 d))"
  by (simp add: lowbyte_def js_sar_def)

lemma ucast_ucast_byte [simp]: "ucast (ucast (b::byte) :: 32 word) = b"
  by (rule bit_word_eqI) (simp add: bit_simps)

lemma lowbyte_uint [simp]: "lowbyte (uint (b::byte)) = b"
  by (simp add: lowbyte_def)

lemma w32_byte3: "ucast (signed_drop_bit 24 (((push_bit 24 (ucast (b3::byte)) OR push_bit 16 (ucast (b2::byte))) OR push_bit 8 (ucast (b1::byte))) OR ucast (b0::byte) :: 32 word)) = b3"
  by (rule bit_word_eqI) (auto simp: bit_simps dest: bit_imp_le_length)

lemma w32_byte2: "ucast (signed_drop_bit 16 (((push_bit 24 (ucast (b3::byte)) OR push_bit 16 (ucast (b2::byte))) OR push_bit 8 (ucast (b1::byte))) OR ucast (b0::byte) :: 32 word)) = b2"
  by (rule bit_word_eqI) (auto simp: bit_simps dest: bit_imp_le_length)

lemma w32_byte1: "ucast (signed_drop_bit 8 (((push_bit 24 (ucast (b3::byte)) OR push_bit 16 (ucast (b2::byte))) OR push_bit 8 (ucast (b1::byte))) OR ucast (b0::byte) :: 32 word)) = b1"
  by (rule bit_word_eqI) (auto simp: bit_simps dest: bit_imp_le_length)

lemma w32_byte0: "ucast (((push_bit 24 (ucast (b3::byte)) OR push_bit 16 (ucast (b2::byte))) OR push_bit 8 (ucast (b1::byte))) OR ucast (b0::byte) :: 32 word) = b0"
  by (rule bit_word_eqI) (auto simp: bit_simps dest: bit_imp_le_length)

lemma w16_byte1: "ucast (signed_drop_bit 8 (push_bit 8 (ucast (b1::byte)) OR ucast (b0::byte) :: 32 word)) = b1"
  by (rule bit_word_eqI) (auto simp: bit_simps dest: bit_imp_le_length)

lemma w16_byte0: "ucast (push_bit 8 (ucast (b1::byte)) OR ucast (b0::byte) :: 32 word) = b0"
  by (rule bit_word_eqI) (auto simp: bit_simps dest: bit_imp_le_length)

lemma format11:
  "formatGUID [g0, g1, g2, t8, t9, t10, t11, t12, t13, t14, t15] =
     [0x7B] @ hex2 (lowbyte (js_sar g0 24)) @ hex2 (lowbyte (js_sar g0 16)) @ hex2 (lowbyte (js_sar g0 8)) @ hex2 (lowbyte g0)
     @ [0x2D] @ hex2 (lowbyte (js_sar g1 8)) @ hex2 (lowbyte g1) @ [0x2D]
     @ hex2 (lowbyte (js_sar g2 8)) @ hex2 (lowbyte g2) @ [0x2D] @ hex2 (lowbyte t8) @ hex2 (lowbyte t9) @ [0x2D]
     @ hex2 (lowbyte t10) @ hex2 (lowbyte t11) @ hex2 (lowbyte t12) @ hex2 (lowbyte t13) @ hex2 (lowbyte t14) @ hex2 (lowbyte t15) @ [0x7D]"
proof -
  have pair: "\<And>d. [hexToChar (js_sar d 4), hexToChar d] = hex2 (lowbyte d)"
    using hex_pair by simp
  have hs: "map hexToChar (concat (map (\<lambda>d. [js_sar d 4, d]) ds)) = concat (map (\<lambda>d. hex2 (lowbyte d)) ds)" for ds
    by (induction ds) (simp_all add: pair)
  have l2: "length (hex2 b) = 2" for b by (simp add: hex2_def)
  show ?thesis
    unfolding formatGUID_def Let_def hs
    by (simp add: num0_def str_def hex2_def)
qed
lemma guid_bytes16:
  "guidFromIDLBytes [b0, b1, b2, b3, b4, b5, b6, b7, b8, b9, b10, b11, b12, b13, b14, b15] =
    [js_or (js_or (js_or (js_shl (uint b3) 24) (js_shl (uint b2) 16)) (js_shl (uint b1) 8)) (uint b0),
     js_or (js_shl (uint b5) 8) (uint b4), js_or (js_shl (uint b7) 8) (uint b6),
     uint b8, uint b9, uint b10, uint b11, uint b12, uint b13, uint b14, uint b15]"
  by (simp add: guidFromIDLBytes_def at0_def)


lemma lowbyte_g0:
  fixes b0 b1 b2 b3 :: byte
  defines "g0 \<equiv> js_or (js_or (js_or (js_shl (uint b3) 24) (js_shl (uint b2) 16)) (js_shl (uint b1) 8)) (uint b0)"
  shows "lowbyte (js_sar g0 24) = b3" "lowbyte (js_sar g0 16) = b2" "lowbyte (js_sar g0 8) = b1" "lowbyte g0 = b0"
  unfolding g0_def
  by (simp_all only: lowbyte_sar ToInt32_js_or_shl) (simp_all add: lowbyte_def ToInt32_js_or_shl w32_byte3 w32_byte2 w32_byte1 w32_byte0)

lemma lowbyte_g1:
  fixes b0 b1 :: byte
  defines "g1 \<equiv> js_or (js_shl (uint b1) 8) (uint b0)"
  shows "lowbyte (js_sar g1 8) = b1" "lowbyte g1 = b0"
  unfolding g1_def
  by (simp_all only: lowbyte_sar ToInt32_js_or_shl16) (simp_all add: lowbyte_def ToInt32_js_or_shl16 w16_byte1 w16_byte0)

lemma formatGUID_bytes:
  "formatGUID (guidFromIDLBytes [b0, b1, b2, b3, b4, b5, b6, b7, b8, b9, b10, b11, b12, b13, b14, b15]) =
     [0x7B] @ hex2 b3 @ hex2 b2 @ hex2 b1 @ hex2 b0 @ [0x2D] @ hex2 b5 @ hex2 b4 @ [0x2D]
     @ hex2 b7 @ hex2 b6 @ [0x2D] @ hex2 b8 @ hex2 b9 @ [0x2D]
     @ hex2 b10 @ hex2 b11 @ hex2 b12 @ hex2 b13 @ hex2 b14 @ hex2 b15 @ [0x7D]"
  by (simp only: guid_bytes16 format11 lowbyte_g0 lowbyte_g1 lowbyte_uint)

lemma uint_byte_lt: "uint (b::byte) < 256"
  using uint_lt2p [of b] by simp

lemma uint_nib_hi: "uint (drop_bit 4 (b::byte)) < 16"
proof -
  have t: "take_bit 8 (uint b) = uint b"
    by (rule take_bit_int_eq_self) (use uint_byte_lt [of b] in simp_all)
  have "uint (drop_bit 4 b) = drop_bit 4 (uint b)" by (simp add: unsigned_drop_bit_eq t)
  also have "\<dots> = uint b div 16" by (simp add: drop_bit_eq_div)
  also have "\<dots> < 16" using uint_byte_lt [of b] by simp
  finally show ?thesis .
qed

lemma unat_code_unit: "0 \<le> k \<Longrightarrow> k < 65536 \<Longrightarrow> unat (word_of_int k :: 16 word) = nat k"
  by (simp add: unat_eq_nat_uint uint_word_of_int take_bit_int_eq_self del: nat_uint_eq)

lemma unat_hexdigit:
  assumes a: "uint n < 16"
  shows "unat (hexdigit n) = (if uint n > 9 then nat (uint n) + 0x57 else nat (uint n) + 0x30)"
proof -
  have b: "0 \<le> uint n" by simp
  show ?thesis
  proof (cases "uint n > 9")
    case True
    have "unat (word_of_int (uint n + 0x57) :: 16 word) = nat (uint n + 0x57)"
      by (rule unat_code_unit) (use a b in simp_all)
    moreover have "hexdigit n = word_of_int (uint n + 0x57)"
      using True by (simp only: hexdigit_def if_True)
    ultimately have "unat (hexdigit n) = nat (uint n + 0x57)" by (simp only:)
    also have "\<dots> = nat (uint n) + 0x57" using b by (simp add: nat_add_distrib del: nat_uint_eq)
    finally show ?thesis using True by (simp only: if_True)
  next
    case False
    have "unat (word_of_int (uint n + 0x30) :: 16 word) = nat (uint n + 0x30)"
      by (rule unat_code_unit) (use a b in simp_all)
    moreover have "hexdigit n = word_of_int (uint n + 0x30)"
      using False by (simp only: hexdigit_def if_False)
    ultimately have "unat (hexdigit n) = nat (uint n + 0x30)" by (simp only:)
    also have "\<dots> = nat (uint n) + 0x30" using b by (simp add: nat_add_distrib del: nat_uint_eq)
    finally show ?thesis using False by (simp only: if_False)
  qed
qed

lemma hexdigit_lower: "uint n < 16 \<Longrightarrow> is_lower_hex (hexdigit n)"
  unfolding is_lower_hex_def by (simp only: unat_hexdigit) (auto simp del: nat_uint_eq)

lemma hexdigit_value: "uint n < 16 \<Longrightarrow> hex_value (hexdigit n) = nat (uint n)"
  unfolding hex_value_def by (simp only: unat_hexdigit) (auto simp del: nat_uint_eq)

lemma byte_of_nibbles: "word_of_nat (16 * nat (uint (drop_bit 4 b)) + nat (uint (take_bit 4 b))) = (b::byte)"
proof -
  have "nat (uint (drop_bit 4 b)) = unat (drop_bit 4 b)" by simp
  also have "\<dots> = drop_bit 4 (unat b)" by (rule unat_drop_bit_eq)
  also have "\<dots> = unat b div 16" by (simp add: drop_bit_eq_div)
  finally have 1: "nat (uint (drop_bit 4 b)) = unat b div 16" .
  have "nat (uint (take_bit 4 b)) = unat (take_bit 4 b)" by simp
  also have "\<dots> = take_bit 4 (unat b)" by (rule unsigned_take_bit_eq)
  also have "\<dots> = unat b mod 16" by (simp add: take_bit_eq_mod)
  finally have 2: "nat (uint (take_bit 4 b)) = unat b mod 16" .
  have 3: "16 * (unat b div 16) + unat b mod 16 = unat b" by simp
  have "word_of_nat (unat b) = b" by simp
  then show ?thesis by (simp only: 1 2 3)
qed

lemma hex_bytes_hex2: "hex_bytes (hex2 b @ r) = b # hex_bytes r"
proof -
  have "hex_bytes (hex2 b @ r) =
     word_of_nat (16 * hex_value (hexdigit (drop_bit 4 b)) + hex_value (hexdigit (take_bit 4 b))) # hex_bytes r"
    by (simp add: hex2_def)
  then show ?thesis
    by (simp only: hexdigit_value [OF uint_nib_hi] hexdigit_value [OF nibble_lt16] byte_of_nibbles)
qed

lemma hex2_lower: "list_all is_lower_hex (hex2 b)"
  by (simp add: hex2_def hexdigit_lower uint_nib_hi nibble_lt16)


text \<open>
  C5. For every 16-byte input, the formatted GUID has the form
  \<open>{8hex-4hex-4hex-4hex-12hex}\<close> with lowercase hex digits, and its 32 hex digits, read
  back as bytes in wire order, are the 16 bytes of the input.
\<close>

theorem guid_roundtrip:
  assumes "length bytes = 16"
  shows "guid_pattern (formatGUID (guidFromIDLBytes bytes))
       \<and> guid_wire_bytes (formatGUID (guidFromIDLBytes bytes)) = bytes"
proof -
  from assms obtain b0 b1 b2 b3 b4 b5 b6 b7 b8 b9 b10 b11 b12 b13 b14 b15
    where bs: "bytes = [b0, b1, b2, b3, b4, b5, b6, b7, b8, b9, b10, b11, b12, b13, b14, b15]"
    by (auto simp: length_Suc_conv eval_nat_numeral)
  have l2: "\<And>b. length (hex2 b) = 2" by (simp add: hex2_def)
  let ?s = "formatGUID (guidFromIDLBytes bytes)"
  have digits: "guid_hex_digits ?s = hex2 b3 @ hex2 b2 @ hex2 b1 @ hex2 b0 @ hex2 b5 @ hex2 b4
     @ hex2 b7 @ hex2 b6 @ hex2 b8 @ hex2 b9 @ hex2 b10 @ hex2 b11 @ hex2 b12 @ hex2 b13
     @ hex2 b14 @ hex2 b15 @ []"
    unfolding bs formatGUID_bytes guid_hex_digits_def by (simp add: hex2_def)
  have pat: "guid_pattern ?s"
    unfolding guid_pattern_def digits
    by (simp add: hex2_lower) (simp add: bs formatGUID_bytes hex2_def)
  have "hex_bytes (guid_hex_digits ?s) = [b3, b2, b1, b0, b5, b4, b7, b6, b8, b9, b10, b11, b12, b13, b14, b15]"
    unfolding digits by (simp only: hex_bytes_hex2 hex_bytes.simps)
  then have "guid_wire_bytes ?s = bytes"
    by (simp add: guid_wire_bytes_def bs)
  with pat show ?thesis by simp
qed

theorem guid_roundtrip_witness:
  "length [0x01, 0x14, 0x02, 0x00, 0, 0, 0, 0, 0xC0, 0, 0, 0, 0, 0, 0, 0x46 :: byte] = 16
   \<and> formatGUID (guidFromIDLBytes [0x01, 0x14, 0x02, 0x00, 0, 0, 0, 0, 0xC0, 0, 0, 0, 0, 0, 0, 0x46])
       = str ''{00021401-0000-0000-c000-000000000046}''
   \<and> guid_pattern (str ''{00021401-0000-0000-c000-000000000046}'')
   \<and> guid_wire_bytes (str ''{00021401-0000-0000-c000-000000000046}'')
       = [0x01, 0x14, 0x02, 0x00, 0, 0, 0, 0, 0xC0, 0, 0, 0, 0, 0, 0, 0x46]"
proof -
  have f: "formatGUID (guidFromIDLBytes [0x01, 0x14, 0x02, 0x00, 0, 0, 0, 0, 0xC0, 0, 0, 0, 0, 0, 0, 0x46])
       = str ''{00021401-0000-0000-c000-000000000046}''"
    by code_simp
  show ?thesis
    using guid_roundtrip [of "[0x01, 0x14, 0x02, 0x00, 0, 0, 0, 0, 0xC0, 0, 0, 0, 0, 0, 0, 0x46]"]
    unfolding f by simp
qed

section \<open>Properties of the rounding to doubles\<close>

lemma pow2_powi: "pow2 k = 2 powi k"
  by (simp add: pow2_def power_int_def power_one_over inverse_eq_divide)

lemma pow2_pos: "0 < pow2 k"
  by (simp add: pow2_powi)

lemma pow2_mono: "a \<le> b \<Longrightarrow> pow2 a \<le> pow2 b"
  by (simp add: pow2_powi power_int_increasing)

lemma pow2_add: "pow2 (a + b) = pow2 a * pow2 b"
  by (simp add: pow2_powi power_int_add)

lemma pow2_nat: "pow2 (int n) = 2 ^ n"
  by (simp add: pow2_def)

lemma bit_length_le: "n < 2 ^ k \<Longrightarrow> bit_length n \<le> k"
proof (induction k arbitrary: n)
  case 0
  then show ?case by (simp add: bit_length.simps)
next
  case (Suc k)
  show ?case
  proof (cases "n = 0")
    case True
    then show ?thesis by (simp add: bit_length.simps)
  next
    case False
    from Suc.prems have "n div 2 < 2 ^ k" by simp
    from Suc.IH [OF this] False show ?thesis by (subst bit_length.simps) simp
  qed
qed

lemma ilog2_le:
  assumes "0 < x" and "x < 2 ^ k" and "0 < k"
  shows "ilog2 x \<le> int k - 1"
proof (cases "1 \<le> x")
  case True
  have "nat \<lfloor>x\<rfloor> < 2 ^ k"
  proof -
    have "\<lfloor>x\<rfloor> < 2 ^ k" using assms(2) by (simp add: floor_less_iff)
    then show ?thesis by (simp add: nat_less_iff)
  qed
  from bit_length_le [OF this] True show ?thesis by (simp add: ilog2_def)
next
  case False
  then have "ilog2 x \<le> 0" by (simp add: ilog2_def)
  with assms(3) show ?thesis by simp
qed

lemma round_half_even_of_int [simp]: "round_half_even (of_int n) = n"
  by (simp add: round_half_even_def)

lemma round_half_even_error: "\<bar>of_int (round_half_even y) - y\<bar> \<le> 1 / 2"
proof -
  have "of_int \<lfloor>y\<rfloor> \<le> y" "y < of_int \<lfloor>y\<rfloor> + 1" by linarith+
  then show ?thesis
    by (auto simp: round_half_even_def Let_def abs_le_iff) 
qed


lemma fl_exponent_le:
  assumes "x \<noteq> 0" and "\<bar>x\<bar> < 2 ^ k" and "0 < k"
  shows "max (ilog2 \<bar>x\<bar>) (- 1022) \<le> int k - 1"
proof -
  have "0 < \<bar>x\<bar>" using assms(1) by simp
  from ilog2_le [OF this assms(2) assms(3)] assms(3) show ?thesis by simp
qed

lemma fl_error:
  assumes "\<bar>x\<bar> < 2 ^ k" and "0 < k"
  shows "\<bar>fl x - x\<bar> \<le> pow2 (int k - 54)"
proof (cases "x = 0")
  case True
  then show ?thesis using pow2_pos [of "int k - 54"] by (simp add: fl_def)
next
  case False
  define e where "e = max (ilog2 \<bar>x\<bar>) (- 1022)"
  define q where "q = pow2 (e - 52)"
  have e: "e \<le> int k - 1" unfolding e_def by (rule fl_exponent_le [OF False assms])
  have q: "0 < q" unfolding q_def by (rule pow2_pos)
  have f: "fl x = of_int (round_half_even (x / q)) * q"
    using False by (simp add: fl_def Let_def e_def q_def)
  have "fl x - x = (of_int (round_half_even (x / q)) - x / q) * q"
    using q by (simp add: f field_simps)
  then have "\<bar>fl x - x\<bar> = \<bar>of_int (round_half_even (x / q)) - x / q\<bar> * q"
    using q by (simp add: abs_mult)
  also have "\<dots> \<le> (1 / 2) * q"
    using round_half_even_error [of "x / q"] q by (intro mult_right_mono) simp_all
  also have "\<dots> = pow2 (e - 53)"
  proof -
    have "pow2 (e - 52) = pow2 ((e - 53) + 1)" by simp
    also have "\<dots> = pow2 (e - 53) * 2" by (simp only: pow2_add) (simp add: pow2_def)
    finally show ?thesis by (simp add: q_def)
  qed
  also have "\<dots> \<le> pow2 (int k - 54)" using e by (intro pow2_mono) simp
  finally show ?thesis .
qed

lemma fl_exact:
  assumes "\<bar>x\<bar> < 2 ^ k" and "0 < k" and "x = of_int m * pow2 (int k - 53)"
  shows "fl x = x"
proof (cases "x = 0")
  case True
  then show ?thesis by (simp add: fl_def)
next
  case False
  define e where "e = max (ilog2 \<bar>x\<bar>) (- 1022)"
  define q where "q = pow2 (e - 52)"
  define j where "j = nat (int k - 1 - e)"
  have e: "e \<le> int k - 1" unfolding e_def by (rule fl_exponent_le [OF False assms(1,2)])
  have q: "0 < q" unfolding q_def by (rule pow2_pos)
  have f: "fl x = of_int (round_half_even (x / q)) * q"
    using False by (simp add: fl_def Let_def e_def q_def)
  have "pow2 (int k - 53) = pow2 (int j + (e - 52))" using e by (simp add: j_def)
  also have "\<dots> = 2 ^ j * q" by (simp only: pow2_add pow2_nat q_def)
  finally have "x = of_int (m * 2 ^ j) * q" using assms(3) by simp
  then have xq: "x / q = of_int (m * 2 ^ j)" using q by simp
  show ?thesis unfolding f xq round_half_even_of_int using xq q by (simp add: field_simps)
qed

lemma fl_of_int:
  assumes "\<bar>n\<bar> < 2 ^ 53"
  shows "fl (of_int n) = of_int n"
proof (rule fl_exact [where k = 53 and m = n])
  have "\<bar>of_int n :: rat\<bar> = of_int \<bar>n\<bar>" by simp
  also have "\<dots> < of_int (2 ^ 53)" using assms by (simp only: of_int_less_iff)
  finally show "\<bar>of_int n :: rat\<bar> < 2 ^ 53" by simp
qed (simp_all add: pow2_def)

lemma tz_ms:
  assumes "\<bar>tz\<bar> \<le> 1440"
  shows "js_mul (js_mul (of_int tz) 60) 1000 = of_int (tz * 60000)"
proof -
  have 1: "\<bar>tz * 60\<bar> < 2 ^ 53" and 2: "\<bar>tz * 60000\<bar> < 2 ^ 53" using assms by simp_all
  have e1: "of_int tz * 60 = (of_int (tz * 60) :: rat)" by simp
  have e2: "of_int (tz * 60) * 1000 = (of_int (tz * 60000) :: rat)" by simp
  show ?thesis
    unfolding js_mul_def e1 fl_of_int [OF 1] e2 fl_of_int [OF 2] ..
qed

lemma Date_of_int: "\<bar>n\<bar> \<le> 8640000000000000 \<Longrightarrow> Date (of_int n) = Some n"
proof -
  assume a: "\<bar>n\<bar> \<le> 8640000000000000"
  have "\<bar>of_int n :: rat\<bar> = of_int \<bar>n\<bar>" by simp
  also have "\<dots> \<le> of_int 8640000000000000" using a by (simp only: of_int_le_iff)
  finally have "\<not> 8640000000000000 < \<bar>of_int n :: rat\<bar>" by simp
  then show ?thesis by (simp add: Date_def)
qed

lemma dateFromFILETIME_exact:
  assumes d: "10000 dvd t" and t: "\<bar>t\<bar> < 2 ^ 57" and tz: "\<bar>tz\<bar> \<le> 1440"
  shows "dateFromFILETIME tz (Number t) = Some (t div 10000 - 11644473600000 - tz * 60000)"
proof -
  define M where "M = t div 10000"
  have tM: "t = M * 10000" using d by (simp add: M_def)
  have M: "\<bar>M\<bar> < 14411518807586" using t unfolding tM by simp
  have "(of_int t :: rat) = of_int (M * 625) * pow2 (int 57 - 53)"
    by (simp add: tM pow2_def)
  moreover have "\<bar>of_int t :: rat\<bar> < 2 ^ 57"
  proof -
    have "\<bar>of_int t :: rat\<bar> = of_int \<bar>t\<bar>" by simp
    also have "\<dots> < of_int (2 ^ 57)" using t by (simp only: of_int_less_iff)
    finally show ?thesis by simp
  qed
  ultimately have a: "Number t = of_int t"
    unfolding Number_def by (intro fl_exact [where k = 57 and m = "M * 625"]) simp_all
  have b0: "of_int t / 10000 = (of_int M :: rat)" by (simp add: tM)
  have b1: "fl (of_int M) = of_int M" using M by (intro fl_of_int) simp
  have c0: "of_int M - 116444736 * 10 ^ 5 = (of_int (M - 11644473600000) :: rat)" by simp
  have c1: "fl (of_int (M - 11644473600000)) = of_int (M - 11644473600000)"
    using M by (intro fl_of_int) simp
  have e0: "of_int (M - 11644473600000) - of_int (tz * 60000)
      = (of_int (M - 11644473600000 - tz * 60000) :: rat)" by simp
  have e1: "fl (of_int (M - 11644473600000 - tz * 60000)) = of_int (M - 11644473600000 - tz * 60000)"
    using M tz by (intro fl_of_int) simp
  have "Date (of_int (M - 11644473600000 - tz * 60000)) = Some (M - 11644473600000 - tz * 60000)"
    using M tz by (intro Date_of_int) simp
  then show ?thesis
    unfolding dateFromFILETIME_def a js_div_def js_sub_def b0 b1 c0 c1 tz_ms [OF tz] e0 e1
      M_def [symmetric] .
qed


lemma Date_trunc:
  assumes "\<bar>v\<bar> \<le> 8640000000000000"
  shows "\<exists>r. Date v = Some r \<and> \<bar>of_int r - v\<bar> < 1"
proof -
  have 1: "\<bar>of_int \<lfloor>v\<rfloor> - v\<bar> < 1" by linarith
  have 2: "\<bar>of_int \<lceil>v\<rceil> - v\<bar> < 1" by linarith
  from assms have "Date v = Some (if 0 \<le> v then \<lfloor>v\<rfloor> else \<lceil>v\<rceil>)" by (simp add: Date_def)
  with 1 2 show ?thesis by (cases "0 \<le> v") simp_all
qed

lemma dateFromFILETIME_bound:
  assumes lo: "- (2 ^ 63) \<le> t" and hi: "t < 2 ^ 63" and tz: "\<bar>tz\<bar> \<le> 1440"
  shows "\<exists>r. dateFromFILETIME tz (Number t) = Some r
            \<and> \<bar>of_int r - (of_int t / 10000 - 11644473600000 - of_int (tz * 60000))\<bar> < (3 / 2 :: rat)"
proof -
  define T :: rat where "T = of_int t"
  define a where "a = fl T"
  define b where "b = fl (a / 10000)"
  define c where "c = fl (b - 11644473600000)"
  define z :: rat where "z = of_int (tz * 60000)"
  define d where "d = fl (c - z)"
  have T: "\<bar>T\<bar> \<le> 9223372036854775808"
  proof -
    have "\<bar>t\<bar> \<le> 9223372036854775808" using lo hi by simp
    then have "(of_int \<bar>t\<bar> :: rat) \<le> of_int 9223372036854775808" by (simp only: of_int_le_iff)
    then show ?thesis by (simp add: T_def)
  qed
  have z: "\<bar>z\<bar> \<le> 86400000"
  proof -
    have "\<bar>tz * 60000\<bar> \<le> 86400000" using tz by simp
    then have "(of_int \<bar>tz * 60000\<bar> :: rat) \<le> of_int 86400000" by (simp only: of_int_le_iff)
    then show ?thesis by (simp add: z_def)
  qed
  have "\<bar>T\<bar> < 18446744073709551616" using T by linarith
  then have "\<bar>T\<bar> < 2 ^ 64" by simp
  from fl_error [OF this] have a: "\<bar>a - T\<bar> \<le> 1024" by (simp add: a_def pow2_def)
  have "\<bar>a / 10000\<bar> < 1125899906842624" using a T by linarith
  then have "\<bar>a / 10000\<bar> < 2 ^ 50" by simp
  from fl_error [OF this] have "\<bar>b - a / 10000\<bar> \<le> pow2 (int 50 - 54)" unfolding b_def by simp
  then have b: "\<bar>b - a / 10000\<bar> \<le> 1 / 16" by (simp only: pow2_def) simp
  have "\<bar>b - 11644473600000\<bar> < 2251799813685248" using a b T by linarith
  then have "\<bar>b - 11644473600000\<bar> < 2 ^ 51" by simp
  from fl_error [OF this] have "\<bar>c - (b - 11644473600000)\<bar> \<le> pow2 (int 51 - 54)" unfolding c_def by simp
  then have c: "\<bar>c - (b - 11644473600000)\<bar> \<le> 1 / 8" by (simp only: pow2_def) simp
  have "\<bar>c - z\<bar> < 2251799813685248" using a b c z T by linarith
  then have "\<bar>c - z\<bar> < 2 ^ 51" by simp
  from fl_error [OF this] have "\<bar>d - (c - z)\<bar> \<le> pow2 (int 51 - 54)" unfolding d_def by simp
  then have d: "\<bar>d - (c - z)\<bar> \<le> 1 / 8" by (simp only: pow2_def) simp
  have close: "\<bar>d - (T / 10000 - 11644473600000 - z)\<bar> \<le> 4149 / 10000"
    using a b c d by linarith
  have "\<bar>d\<bar> \<le> 8640000000000000" using close T z by linarith
  from Date_trunc [OF this] obtain r where r: "Date d = Some r" and tr: "\<bar>of_int r - d\<bar> < 1"
    by blast
  have val: "dateFromFILETIME tz (Number t) = Date d"
    unfolding dateFromFILETIME_def Number_def js_div_def js_sub_def tz_ms [OF tz]
    by (simp add: d_def c_def b_def a_def T_def z_def)
  have "\<bar>of_int r - (T / 10000 - 11644473600000 - z)\<bar> < 3 / 2"
    using tr close by linarith
  with r val show ?thesis unfolding T_def z_def by (intro exI [of _ r]) simp
qed

section \<open>Properties of the header reader\<close>

lemma arrayEquals_eq: "arrayEquals xs ys \<longleftrightarrow> xs = ys"
proof
  assume "arrayEquals xs ys"
  then have l: "length xs = length ys" and n: "\<forall>i<length xs. ys ! i = xs ! i"
    by (simp_all add: arrayEquals_def list_all_iff)
  show "xs = ys"
  proof (rule nth_equalityI)
    show "length xs = length ys" by (rule l)
  next
    fix i assume "i < length xs"
    with n show "xs ! i = ys ! i" by simp
  qed
next
  assume "xs = ys"
  then show "arrayEquals xs ys" by (simp add: arrayEquals_def list_all_iff)
qed

lemma readInt32LE_ok: "i + 4 \<le> length buf \<Longrightarrow> readInt32LE buf i = Inr (int32_at buf i)"
  by (simp add: readInt32LE_def readUIntLE_def int32_at_def)

lemma readUInt32LE_ok: "i + 4 \<le> length buf \<Longrightarrow> readUInt32LE buf i = Inr (uint32_at buf i)"
  by (simp add: readUInt32LE_def readUIntLE_def uint32_at_def)

lemma readFileTime_ok:
  "i + 8 \<le> length (buffer this) \<Longrightarrow> readFileTime tz adv i this = Inr (filetime_at tz (buffer this) i)"
  by (simp add: readFileTime_def readBigInt64LE_def readUIntLE_def filetime_at_def)

lemma readInt32LE_fail: "\<not> i + 4 \<le> length buf \<Longrightarrow> readInt32LE buf i = Inl RangeError"
  by (simp add: readInt32LE_def readUIntLE_def)

lemma readUInt32LE_fail: "\<not> i + 4 \<le> length buf \<Longrightarrow> readUInt32LE buf i = Inl RangeError"
  by (simp add: readUInt32LE_def readUIntLE_def)

lemma readFileTime_fail:
  "\<not> i + 8 \<le> length (buffer this) \<Longrightarrow> readFileTime tz adv i this = Inl RangeError"
  by (simp add: readFileTime_def readBigInt64LE_def readUIntLE_def)

lemma showCommand_norm:
  "(if Inr v \<notin> set ShowCommands_values then Normal else v) = normalize_showCommand v"
  by (auto simp: ShowCommands_values_def Normal_def Maximized_def MinimizedWithoutFocus_def normalize_showCommand_def)

lemma parseHeader_long:
  assumes "offset this + 64 \<le> length (buffer this)"
  shows "parseHeader tz advance this =
     (case LinkTargetIDList_parse (drop (offset this + 76) (buffer this)) of
        None \<Rightarrow> None
      | Some (Inl e) \<Rightarrow> Some (Inl e, this)
      | Some (Inr idList) \<Rightarrow>
          (case getPath idList of
             Inl e \<Rightarrow> Some (Inl e, this)
           | Inr (path, tgt) \<Rightarrow> Some (Inr (header_of tz this tgt), this)))"
  using assms
  unfolding parseHeader_def readGUID_IDL_def
  by (simp add: Let_def attempt_def readInt32LE_ok readUInt32LE_ok readFileTime_ok showCommand_norm
      arrayEquals_eq header_of_def VALID_HEADER_SIZE_def add.commute
      split: option.splits sum.splits prod.splits)

lemma parseHeader_short:
  assumes "\<not> offset this + 64 \<le> length (buffer this)"
  shows "parseHeader tz advance this = Some (Inl RangeError, this)"
proof -
  consider "\<not> offset this + 4 \<le> length (buffer this)"
    | "offset this + 4 \<le> length (buffer this)" "\<not> offset this + 24 \<le> length (buffer this)"
    | "offset this + 24 \<le> length (buffer this)" "\<not> offset this + 28 \<le> length (buffer this)"
    | "offset this + 28 \<le> length (buffer this)" "\<not> offset this + 36 \<le> length (buffer this)"
    | "offset this + 36 \<le> length (buffer this)" "\<not> offset this + 44 \<le> length (buffer this)"
    | "offset this + 44 \<le> length (buffer this)" "\<not> offset this + 52 \<le> length (buffer this)"
    | "offset this + 52 \<le> length (buffer this)" "\<not> offset this + 56 \<le> length (buffer this)"
    | "offset this + 56 \<le> length (buffer this)" "\<not> offset this + 60 \<le> length (buffer this)"
    | "offset this + 60 \<le> length (buffer this)" "\<not> offset this + 64 \<le> length (buffer this)"
    using assms by linarith
  then show ?thesis
    unfolding parseHeader_def readGUID_IDL_def
    by cases
      (simp_all add: Let_def attempt_def readInt32LE_ok readUInt32LE_ok readFileTime_ok
        readInt32LE_fail readUInt32LE_fail readFileTime_fail)
qed

lemma unat_byte_lt: "unat (b::byte) < 256"
  using unsigned_less [of b, where 'a=nat] by simp

lemma uintLE_bound: "uintLE bs < 256 ^ length bs"
proof (induction bs)
  case Nil
  then show ?case by simp
next
  case (Cons b bs)
  define N :: nat where "N = 256 ^ length bs"
  from Cons have "uintLE bs + 1 \<le> N" by (simp add: N_def)
  then have "256 * uintLE bs + 256 \<le> 256 * N" by simp
  moreover have "unat b < 256" by (rule unat_byte_lt)
  ultimately have "unat b + 256 * uintLE bs < 256 * N" by linarith
  then show ?case by (simp add: N_def)
qed

lemma uintLE_inj: "length bs = length cs \<Longrightarrow> uintLE bs = uintLE cs \<Longrightarrow> bs = cs"
proof (induction bs arbitrary: cs)
  case Nil
  then show ?case by simp
next
  case (Cons b bs)
  then obtain c cs' where cs: "cs = c # cs'" by (cases cs) simp_all
  have b: "unat b < 256" and c: "unat c < 256"
    by (rule unat_byte_lt)+
  from Cons.prems cs have e: "unat b + 256 * uintLE bs = unat c + 256 * uintLE cs'" by simp
  then have "(unat b + 256 * uintLE bs) mod 256 = (unat c + 256 * uintLE cs') mod 256" by (simp only:)
  then have 1: "unat b = unat c" using b c by simp
  with e have 2: "uintLE bs = uintLE cs'" by simp
  from 1 have "b = c" by (simp only: word_unat_eq_iff)
  moreover from Cons.IH [of cs'] Cons.prems cs 2 have "bs = cs'" by simp
  ultimately show ?case using cs by simp
qed


lemma sint32_eq_76: "sint (w :: 32 word) = 76 \<longleftrightarrow> w = 76"
proof
  assume "sint w = 76"
  then have "word_of_int (sint w) = (word_of_int 76 :: 32 word)" by (simp only:)
  then show "w = 76" by simp
next
  assume "w = 76" then show "sint w = 76" by simp
qed

lemma int32_is_76:
  assumes "length bs = 4"
  shows "sint (word_of_nat (uintLE bs) :: 32 word) = 76 \<longleftrightarrow> bs = [0x4C, 0, 0, 0]"
proof -
  have lt: "uintLE bs < 2 ^ 32" using uintLE_bound [of bs] assms by simp
  have "(word_of_nat (uintLE bs) :: 32 word) = 76 \<longleftrightarrow> uintLE bs = 76"
  proof
    assume "(word_of_nat (uintLE bs) :: 32 word) = 76"
    then have "unat (word_of_nat (uintLE bs) :: 32 word) = unat (76 :: 32 word)" by (simp only:)
    then show "uintLE bs = 76" using lt by (simp add: unat_of_nat take_bit_nat_eq_self)
  next
    assume "uintLE bs = 76" then show "(word_of_nat (uintLE bs) :: 32 word) = 76" by simp
  qed
  also have "\<dots> \<longleftrightarrow> bs = [0x4C, 0, 0, 0]"
  proof
    assume "uintLE bs = 76"
    then have "uintLE bs = uintLE [0x4C, 0, 0, 0]" by simp
    with assms show "bs = [0x4C, 0, 0, 0]" by (intro uintLE_inj) simp_all
  next
    assume "bs = [0x4C, 0, 0, 0]" then show "uintLE bs = 76" by simp
  qed
  finally show ?thesis by (simp only: sint32_eq_76)
qed

lemma uint_byte_eq: "uint (b::byte) = k \<Longrightarrow> b = word_of_int k"
  by auto

lemma guid_is_clsid:
  assumes "length bs = 16"
  shows "guidFromIDLBytes bs = VALID_LINK_CLSID \<longleftrightarrow>
         bs = [0x01, 0x14, 0x02, 0x00, 0x00, 0x00, 0x00, 0x00, 0xC0, 0x00, 0x00, 0x00, 0x00, 0x00, 0x00, 0x46]"
proof
  from assms obtain b0 b1 b2 b3 b4 b5 b6 b7 b8 b9 b10 b11 b12 b13 b14 b15
    where bs: "bs = [b0, b1, b2, b3, b4, b5, b6, b7, b8, b9, b10, b11, b12, b13, b14, b15]"
    by (auto simp: length_Suc_conv eval_nat_numeral)
  assume "guidFromIDLBytes bs = VALID_LINK_CLSID"
  then have g0: "js_or (js_or (js_or (js_shl (uint b3) 24) (js_shl (uint b2) 16)) (js_shl (uint b1) 8)) (uint b0) = 136193"
    and g1: "js_or (js_shl (uint b5) 8) (uint b4) = 0"
    and g2: "js_or (js_shl (uint b7) 8) (uint b6) = 0"
    and t: "uint b8 = 192" "uint b9 = 0" "uint b10 = 0" "uint b11 = 0" "uint b12 = 0" "uint b13 = 0" "uint b14 = 0" "uint b15 = 70"
    unfolding bs guid_bytes16 VALID_LINK_CLSID_def by simp_all
  have "b3 = lowbyte (js_sar 136193 24)" "b2 = lowbyte (js_sar 136193 16)" "b1 = lowbyte (js_sar 136193 8)" "b0 = lowbyte 136193"
    unfolding g0 [symmetric] by (simp_all only: lowbyte_g0)
  then have w0: "b3 = 0" "b2 = 2" "b1 = 0x14" "b0 = 1"
    by (simp_all add: lowbyte_def js_sar_def ToInt32_def)
  have "b5 = lowbyte (js_sar 0 8)" "b4 = lowbyte 0"
    unfolding g1 [symmetric] by (simp_all only: lowbyte_g1)
  moreover have "b7 = lowbyte (js_sar 0 8)" "b6 = lowbyte 0"
    unfolding g2 [symmetric] by (simp_all only: lowbyte_g1)
  ultimately have w1: "b5 = 0" "b4 = 0" "b7 = 0" "b6 = 0"
    by (simp_all add: lowbyte_def js_sar_def ToInt32_def)
  from t have w2: "b8 = 0xC0" "b9 = 0" "b10 = 0" "b11 = 0" "b12 = 0" "b13 = 0" "b14 = 0" "b15 = 0x46"
    by (auto dest: uint_byte_eq)
  show "bs = [0x01, 0x14, 0x02, 0x00, 0x00, 0x00, 0x00, 0x00, 0xC0, 0x00, 0x00, 0x00, 0x00, 0x00, 0x00, 0x46]"
    by (simp only: bs w0 w1 w2)
next
  assume "bs = [0x01, 0x14, 0x02, 0x00, 0x00, 0x00, 0x00, 0x00, 0xC0, 0x00, 0x00, 0x00, 0x00, 0x00, 0x00, 0x46]"
  then show "guidFromIDLBytes bs = VALID_LINK_CLSID"
    by (simp add: guidFromIDLBytes_def VALID_LINK_CLSID_def at0_def js_or_def js_shl_def ToInt32_def)
qed

lemma LinkTargetIDList_parse_length:
  "LinkTargetIDList_parse b = Some (Inr l) \<Longrightarrow> 2 \<le> length b"
  by (auto simp: LinkTargetIDList_parse_def readUIntLE_def split: if_splits)

lemma parseHeader_InrE:
  assumes "parseHeader tz advance this = Some (Inr lnkFile, this')"
  obtains idList path tgt where
    "offset this + 78 \<le> length (buffer this)" and "this' = this"
    and "LinkTargetIDList_parse (drop (offset this + 76) (buffer this)) = Some (Inr idList)"
    and "getPath idList = Inr (path, tgt)" and "lnkFile = header_of tz this tgt"
proof -
  have long: "offset this + 64 \<le> length (buffer this)"
  proof (rule ccontr)
    assume "\<not> offset this + 64 \<le> length (buffer this)"
    from parseHeader_short [OF this, of tz advance] assms show False by simp
  qed
  note eq = assms [unfolded parseHeader_long [OF long]]
  let ?r = "LinkTargetIDList_parse (drop (offset this + 76) (buffer this))"
  from eq obtain idList where p: "?r = Some (Inr idList)"
    by (cases ?r) (simp_all split: sum.splits)
  from eq p obtain path tgt where g: "getPath idList = Inr (path, tgt)"
    by (cases "getPath idList") (simp_all split: prod.splits)
  note c = eq [unfolded p g option.case sum.case prod.case option.inject sum.inject prod.inject]
  from c have f: "lnkFile = header_of tz this tgt" by (rule conjunct1 [THEN sym])
  from c have t: "this' = this" by (rule conjunct2 [THEN sym])
  from LinkTargetIDList_parse_length [OF p] have len: "offset this + 78 \<le> length (buffer this)" by simp
  show ?thesis by (rule that [OF len t p g f])
qed

lemma parseHeader_state:
  assumes "parseHeader tz advance this = Some (result, this')"
  shows "this' = this"
proof (cases "offset this + 64 \<le> length (buffer this)")
  case False
  from parseHeader_short [OF False, of tz advance] assms show ?thesis by simp
next
  case True
  let ?r = "LinkTargetIDList_parse (drop (offset this + 76) (buffer this))"
  note eq = assms [unfolded parseHeader_long [OF True]]
  show ?thesis
  proof (cases ?r)
    case None
    with eq show ?thesis by simp
  next
    case (Some res)
    show ?thesis
    proof (cases res)
      case (Inl e)
      with eq Some show ?thesis by simp
    next
      case (Inr idList)
      with eq Some show ?thesis
        by (cases "getPath idList") (simp_all split: prod.splits)
    qed
  qed
qed

lemma normalize_showCommand_cases:
  "normalize_showCommand v = Normal \<or> normalize_showCommand v = Maximized \<or> normalize_showCommand v = MinimizedWithoutFocus"
  by (auto simp: normalize_showCommand_def Normal_def Maximized_def MinimizedWithoutFocus_def)



lemma sliceJS_update_outside:
  "i < a \<or> c \<le> i \<Longrightarrow> sliceJS (buf[i := b]) a c = sliceJS buf a c"
proof (cases "i < a")
  case True
  then show ?thesis by (simp add: sliceJS_def drop_update_cancel)
next
  case False
  assume "i < a \<or> c \<le> i"
  with False have ci: "c \<le> i" and ai: "a \<le> i" by simp_all
  then show ?thesis by (simp add: sliceJS_def drop_update_swap)
qed

lemma elem_at_update_other:
  "i \<noteq> k \<Longrightarrow> elem_at (buf[i := b]) k = elem_at buf k"
  by (simp add: elem_at_def)

lemma int32_at_update: "i < a \<or> a + 4 \<le> i \<Longrightarrow> int32_at (buf[i := b]) a = int32_at buf a"
  by (simp add: int32_at_def sliceJS_update_outside)

lemma uint32_at_update: "i < a \<or> a + 4 \<le> i \<Longrightarrow> uint32_at (buf[i := b]) a = uint32_at buf a"
  by (simp add: uint32_at_def sliceJS_update_outside)

lemma filetime_at_update: "i < a \<or> a + 8 \<le> i \<Longrightarrow> filetime_at tz (buf[i := b]) a = filetime_at tz buf a"
  by (simp add: filetime_at_def sliceJS_update_outside)

lemma uint32_at_patch:
  assumes "k + 64 \<le> length buf"
  shows "uint32_at (buf[k + 60 := w0, k + 61 := w1, k + 62 := w2, k + 63 := w3]) (k + 60)
         = int (uintLE [w0, w1, w2, w3])"
proof -
  let ?b = "buf[k + 60 := w0, k + 61 := w1, k + 62 := w2, k + 63 := w3]"
  have l: "length (take 4 (drop (k + 60) ?b)) = 4" using assms by simp
  have "take 4 (drop (k + 60) ?b) = [w0, w1, w2, w3]"
  proof (rule nth_equalityI)
    show "length (take 4 (drop (k + 60) ?b)) = length [w0, w1, w2, w3]" using l by simp
  next
    fix j assume "j < length (take 4 (drop (k + 60) ?b))"
    then have "j < 4" using l by simp
    then consider "j = 0" | "j = 1" | "j = 2" | "j = 3" by linarith
    then show "take 4 (drop (k + 60) ?b) ! j = [w0, w1, w2, w3] ! j"
      using assms by cases (simp_all add: nth_list_update)
  qed
  then show ?thesis by (simp only: uint32_at_def sliceJS_def) simp
qed

lemma header_of_patch:
  assumes "offset this + 64 \<le> length (buffer this)"
  shows "header_of tz (this\<lparr>buffer := (buffer this)[offset this + 60 := w0, offset this + 61 := w1,
                                                 offset this + 62 := w2, offset this + 63 := w3]\<rparr>) tgt
       = (header_of tz this tgt)\<lparr>showCommand := normalize_showCommand (int (uintLE [w0, w1, w2, w3]))\<rparr>"
proof -
  have p: "uint32_at ((buffer this)[offset this + 60 := w0, offset this + 61 := w1,
                                   offset this + 62 := w2, offset this + 63 := w3]) (offset this + 60)
           = int (uintLE [w0, w1, w2, w3])"
    by (rule uint32_at_patch [OF assms])
  show ?thesis
    unfolding header_of_def Let_def
    by (simp add: p int32_at_update uint32_at_update filetime_at_update sliceJS_update_outside
        elem_at_update_other)
qed



lemma header_magic_split:
  "header_magic = [0x4C, 0, 0, 0] @ [0x01, 0x14, 0x02, 0x00, 0x00, 0x00, 0x00, 0x00, 0xC0, 0x00, 0x00, 0x00, 0x00, 0x00, 0x00, 0x46]"
  by (simp add: header_magic_def)

lemma valid_iff_magic:
  assumes "20 \<le> length buf"
  shows "(int32_at buf 0 = 76 \<and> guidFromIDLBytes (sliceJS buf 4 20) = VALID_LINK_CLSID)
         \<longleftrightarrow> take 20 buf = header_magic"
proof -
  have l4: "length (take 4 buf) = 4" and l16: "length (take 16 (drop 4 buf)) = 16"
    using assms by simp_all
  have t: "take 20 buf = take 4 buf @ take 16 (drop 4 buf)"
    using take_add [of 4 16 buf] by simp
  have "int32_at buf 0 = 76 \<longleftrightarrow> take 4 buf = [0x4C, 0, 0, 0]"
    unfolding int32_at_def sliceJS_def using int32_is_76 [OF l4] by simp
  moreover have "guidFromIDLBytes (sliceJS buf 4 20) = VALID_LINK_CLSID \<longleftrightarrow>
      take 16 (drop 4 buf) = [0x01, 0x14, 0x02, 0x00, 0x00, 0x00, 0x00, 0x00, 0xC0, 0x00, 0x00, 0x00, 0x00, 0x00, 0x00, 0x46]"
    unfolding sliceJS_def using guid_is_clsid [OF l16] by simp
  moreover have "(take 4 buf @ take 16 (drop 4 buf) = [0x4C, 0, 0, 0] @ [0x01, 0x14, 0x02, 0x00, 0x00, 0x00, 0x00, 0x00, 0xC0, 0x00, 0x00, 0x00, 0x00, 0x00, 0x00, 0x46])
     = (take 4 buf = [0x4C, 0, 0, 0] \<and> take 16 (drop 4 buf) = [0x01, 0x14, 0x02, 0x00, 0x00, 0x00, 0x00, 0x00, 0xC0, 0x00, 0x00, 0x00, 0x00, 0x00, 0x00, 0x46])"
    by (rule append_eq_append_conv) (use assms in simp)
  ultimately show ?thesis
    unfolding t header_magic_split by (simp only:)
qed

lemma sliceJS_update_before:
  "i < a \<Longrightarrow> sliceJS (buf[i := b]) a c = sliceJS buf a c"
  by (simp add: sliceJS_def drop_update_cancel)


lemma header_of_update:
  assumes "i < 20"
  shows "header_of tz (new_LNKParser (buf[i := b])) tgt
          \<lparr>headerSize := headerSize (header_of tz (new_LNKParser buf) tgt),
           linkCLSID := linkCLSID (header_of tz (new_LNKParser buf) tgt),
           valid := valid (header_of tz (new_LNKParser buf) tgt)\<rparr>
        = header_of tz (new_LNKParser buf) tgt"
  using assms
  by (simp add: header_of_def new_LNKParser_def Let_def int32_at_def uint32_at_def filetime_at_def
      sliceJS_update_before elem_at_update_other)


lemma valid_header_of:
  "valid (header_of tz this tgt) \<longleftrightarrow>
     int32_at (buffer this) (offset this) = 76
     \<and> guidFromIDLBytes (sliceJS (buffer this) (offset this + 4) (offset this + 20)) = VALID_LINK_CLSID"
  by (simp add: header_of_def Let_def)

lemma int32_at_76_iff:
  assumes "4 \<le> length buf"
  shows "int32_at buf 0 = 76 \<longleftrightarrow> uintLE (take 4 buf) = 76"
proof -
  have l4: "length (take 4 buf) = 4" using assms by simp
  have "uintLE (take 4 buf) = 76 \<longleftrightarrow> take 4 buf = [0x4C, 0, 0, 0]"
  proof
    assume "uintLE (take 4 buf) = 76"
    then have "uintLE (take 4 buf) = uintLE [0x4C, 0, 0, 0]" by simp
    with l4 show "take 4 buf = [0x4C, 0, 0, 0]" by (intro uintLE_inj) simp_all
  next
    assume "take 4 buf = [0x4C, 0, 0, 0]" then show "uintLE (take 4 buf) = 76" by simp
  qed
  with int32_is_76 [OF l4] show ?thesis by (simp add: int32_at_def sliceJS_def)
qed

lemma date_zero: "dateFromFILETIME 0 (Number 0) = Some (- 11644473600000)"
  by (simp add: dateFromFILETIME_def Number_def fl_def js_sub_def js_div_def js_mul_def Date_def
      ilog2_def pow2_def round_half_even_def bit_length.simps Let_def)

lemma minimal_fields:
  "int32_at minimal_lnk 0 = 76"
  "guidFromIDLBytes (sliceJS minimal_lnk 4 20) = [136193, 0, 0, 192, 0, 0, 0, 0, 0, 0, 70]"
  "int32_at minimal_lnk 20 = 0"
  "int32_at minimal_lnk 24 = 0"
  "uint32_at minimal_lnk 52 = 0"
  "int32_at minimal_lnk 56 = 0"
  "uint32_at minimal_lnk 60 = 1"
  "elem_at minimal_lnk 64 = Some 0"
  "elem_at minimal_lnk 65 = Some 0"
  by (simp_all add: minimal_lnk_def minimal_header_def int32_at_def uint32_at_def sliceJS_def elem_at_def
      guidFromIDLBytes_def at0_def js_or_def js_shl_def ToInt32_def)

lemma minimal_dates:
  "filetime_at 0 minimal_lnk 28 = Some (- 11644473600000)"
  "filetime_at 0 minimal_lnk 36 = Some (- 11644473600000)"
  "filetime_at 0 minimal_lnk 44 = Some (- 11644473600000)"
  by (simp_all add: minimal_lnk_def minimal_header_def filetime_at_def sliceJS_def date_zero)

lemma minimal_idlist:
  "LinkTargetIDList_parse (drop 76 minimal_lnk) =
     Some (Inr \<lparr>LinkTargetIDList.valid = True, items = [], cachedPath = None\<rparr>)"
  by (simp add: minimal_lnk_def minimal_header_def LinkTargetIDList_parse_def readUIntLE_def sliceJS_def parse_loop.simps)

lemma parse_minimal_a:
  "parseHeader 0 True (new_LNKParser minimal_lnk) = Some (Inr minimal_record, new_LNKParser minimal_lnk)"
proof -
  have len: "offset (new_LNKParser minimal_lnk) + 64 \<le> length (buffer (new_LNKParser minimal_lnk))"
    by (simp add: new_LNKParser_def minimal_lnk_def minimal_header_def)
  have h: "header_of 0 (new_LNKParser minimal_lnk) \<lparr>LinkTargetIDList.valid = True, items = [], cachedPath = Some []\<rparr> = minimal_record"
    by (simp add: header_of_def new_LNKParser_def Let_def minimal_fields minimal_dates minimal_record_def
        VALID_LINK_CLSID_def normalize_showCommand_def)
  show ?thesis
    unfolding parseHeader_long [OF len]
    by (simp add: new_LNKParser_def minimal_idlist getPath_def h [unfolded new_LNKParser_def])
qed

lemma parse_minimal: "parse 0 (new_LNKParser minimal_lnk) = Some (Inr minimal_record, new_LNKParser minimal_lnk)"
  by (simp only: parse_def parse_minimal_a)

lemma format_clsid: "formatGUID VALID_LINK_CLSID = str ''{00021401-0000-0000-c000-000000000046}''"
  by (simp add: VALID_LINK_CLSID_def formatGUID_def num0_def js_sar_def js_and_def ToInt32_def
      hexToChar_def fromCharCode_def str_def Let_def)

lemma minimal_changed:
  "header_of 0 (new_LNKParser (minimal_lnk[0 := 0x4D]))
       \<lparr>LinkTargetIDList.valid = True, items = [], cachedPath = Some []\<rparr>
     = minimal_record\<lparr>headerSize := 77, valid := False\<rparr>"
  by (simp add: header_of_def new_LNKParser_def Let_def minimal_lnk_def minimal_header_def
      minimal_record_def int32_at_def uint32_at_def filetime_at_def sliceJS_def elem_at_def
      guidFromIDLBytes_def at0_def js_or_def js_shl_def ToInt32_def date_zero
      VALID_LINK_CLSID_def normalize_showCommand_def)

section \<open>The claims about the header reader\<close>

text \<open>
  C1. When \<open>parseHeader\<close> returns a record for a buffer, the record is the one that
  the fixed layout prescribes (\<open>header_of\<close>: every field is the read at its fixed
  offset, the target is the ID list that starts at offset 76), and its \<open>valid\<close> field
  is true exactly when the first 4 bytes decode (little-endian) to 76 and the next 16 bytes
  decode under the GUID wire layout to the class identifier (the numbers
  \<open>VALID_LINK_CLSID\<close>, which format as \<open>{00021401-0000-0000-c000-000000000046}\<close>),
  that is, exactly when the buffer starts with the 20 bytes \<open>header_magic\<close>. Changing
  any single one of these 20 bytes of a valid buffer still gives a record, with
  \<open>valid\<close> false and every other field populated from the fixed layout of the changed
  buffer: the declared size and the class identifier are decoded from the changed bytes,
  and the link flags, attribute flags, three timestamps, target size, icon index, show
  command, hot key and target are the reads at offsets 20, 24, 28, 36, 44, 52, 56, 60, 64,
  65 and 76, the same as before the change.
\<close>

theorem header_valid_iff:
  assumes "parseHeader tz advance (new_LNKParser buf) = Some (Inr lnkFile, this')"
  shows "\<exists>idList path tgt.
           LinkTargetIDList_parse (drop 76 buf) = Some (Inr idList)
         \<and> getPath idList = Inr (path, tgt)
         \<and> lnkFile = header_of tz (new_LNKParser buf) tgt
         \<and> (valid lnkFile \<longleftrightarrow>
              uintLE (take 4 buf) = 76 \<and> guidFromIDLBytes (take 16 (drop 4 buf)) = VALID_LINK_CLSID)
         \<and> formatGUID VALID_LINK_CLSID = str ''{00021401-0000-0000-c000-000000000046}''
         \<and> (valid lnkFile \<longleftrightarrow> take 20 buf = header_magic)
         \<and> (valid lnkFile \<and> i < 20 \<and> b \<noteq> buf ! i \<longrightarrow>
              (\<exists>lnkFile'.
                 parseHeader tz advance (new_LNKParser (buf[i := b]))
                   = Some (Inr lnkFile', new_LNKParser (buf[i := b]))
                 \<and> lnkFile' = header_of tz (new_LNKParser (buf[i := b])) tgt
                 \<and> \<not> valid lnkFile'
                 \<and> headerSize lnkFile' = int32_at (buf[i := b]) 0
                 \<and> linkCLSID lnkFile' = guidFromIDLBytes (take 16 (drop 4 (buf[i := b])))
                 \<and> linkFlags lnkFile' = int32_at buf 20
                 \<and> targetAttributeFlags lnkFile' = int32_at buf 24
                 \<and> targetCreationDate lnkFile' = filetime_at tz buf 28
                 \<and> targetAccessDate lnkFile' = filetime_at tz buf 36
                 \<and> targetWriteDate lnkFile' = filetime_at tz buf 44
                 \<and> targetFileSize lnkFile' = uint32_at buf 52
                 \<and> icon lnkFile' = Some \<lparr>location = [], iconIndex = int32_at buf 56\<rparr>
                 \<and> showCommand lnkFile' = normalize_showCommand (uint32_at buf 60)
                 \<and> hotKey lnkFile' = \<lparr>keyCode = elem_at buf 64, modifierFlags = elem_at buf 65\<rparr>
                 \<and> target lnkFile' = Inr tgt
                 \<and> lnkFile'\<lparr>headerSize := headerSize lnkFile, linkCLSID := linkCLSID lnkFile,
                              valid := True\<rparr> = lnkFile))"
proof -
  let ?P = "new_LNKParser buf"
  have o: "offset ?P = 0" and bf: "buffer ?P = buf" by (simp_all add: new_LNKParser_def)
  from assms obtain idList path tgt where
    len: "offset ?P + 78 \<le> length (buffer ?P)"
    and p: "LinkTargetIDList_parse (drop (offset ?P + 76) (buffer ?P)) = Some (Inr idList)"
    and g: "getPath idList = Inr (path, tgt)" and f: "lnkFile = header_of tz ?P tgt"
    by (rule parseHeader_InrE)
  from p have p0: "LinkTargetIDList_parse (drop 76 buf) = Some (Inr idList)" by (simp add: o bf)
  from len have len78: "78 \<le> length buf" by (simp add: o bf)
  then have len20: "20 \<le> length buf" and len4: "4 \<le> length buf" by simp_all
  have v: "valid lnkFile \<longleftrightarrow>
      int32_at buf 0 = 76 \<and> guidFromIDLBytes (sliceJS buf 4 20) = VALID_LINK_CLSID"
    unfolding f valid_header_of by (simp add: o bf)
  have c1: "valid lnkFile \<longleftrightarrow>
      uintLE (take 4 buf) = 76 \<and> guidFromIDLBytes (take 16 (drop 4 buf)) = VALID_LINK_CLSID"
    unfolding v int32_at_76_iff [OF len4] by (simp add: sliceJS_def)
  have c2: "valid lnkFile \<longleftrightarrow> take 20 buf = header_magic"
    unfolding v by (rule valid_iff_magic [OF len20])
  have c3: "\<exists>lnkFile'.
                 parseHeader tz advance (new_LNKParser (buf[i := b]))
                   = Some (Inr lnkFile', new_LNKParser (buf[i := b]))
                 \<and> lnkFile' = header_of tz (new_LNKParser (buf[i := b])) tgt
                 \<and> \<not> valid lnkFile'
                 \<and> headerSize lnkFile' = int32_at (buf[i := b]) 0
                 \<and> linkCLSID lnkFile' = guidFromIDLBytes (take 16 (drop 4 (buf[i := b])))
                 \<and> linkFlags lnkFile' = int32_at buf 20
                 \<and> targetAttributeFlags lnkFile' = int32_at buf 24
                 \<and> targetCreationDate lnkFile' = filetime_at tz buf 28
                 \<and> targetAccessDate lnkFile' = filetime_at tz buf 36
                 \<and> targetWriteDate lnkFile' = filetime_at tz buf 44
                 \<and> targetFileSize lnkFile' = uint32_at buf 52
                 \<and> icon lnkFile' = Some \<lparr>location = [], iconIndex = int32_at buf 56\<rparr>
                 \<and> showCommand lnkFile' = normalize_showCommand (uint32_at buf 60)
                 \<and> hotKey lnkFile' = \<lparr>keyCode = elem_at buf 64, modifierFlags = elem_at buf 65\<rparr>
                 \<and> target lnkFile' = Inr tgt
                 \<and> lnkFile'\<lparr>headerSize := headerSize lnkFile, linkCLSID := linkCLSID lnkFile,
                              valid := True\<rparr> = lnkFile"
    if vl: "valid lnkFile" and i: "i < 20" and b: "b \<noteq> buf ! i"
  proof -
    let ?buf' = "buf[i := b]"
    let ?Q = "new_LNKParser ?buf'"
    let ?H = "header_of tz ?Q tgt"
    have o': "offset ?Q = 0" and bf': "buffer ?Q = ?buf'" by (simp_all add: new_LNKParser_def)
    have long': "offset ?Q + 64 \<le> length (buffer ?Q)" using len78 by (simp add: o' bf')
    have d: "drop 76 ?buf' = drop 76 buf" using i by (simp add: drop_update_cancel)
    have ph: "parseHeader tz advance ?Q = Some (Inr ?H, ?Q)"
      unfolding parseHeader_long [OF long'] using p g by (simp add: o' bf' o bf d)
    have "take 20 ?buf' \<noteq> header_magic"
    proof
      assume "take 20 ?buf' = header_magic"
      then have "take 20 ?buf' = take 20 buf" using c2 vl by simp
      then have "take 20 ?buf' ! i = take 20 buf ! i" by (simp only:)
      then have "?buf' ! i = buf ! i" using i by simp
      then show False using b i len20 by simp
    qed
    moreover have "valid ?H \<longleftrightarrow> take 20 ?buf' = header_magic"
      unfolding valid_header_of using valid_iff_magic [of ?buf'] len20 by (simp add: o' bf')
    ultimately have nv: "\<not> valid ?H" by simp
    have fr: "?H\<lparr>headerSize := headerSize lnkFile, linkCLSID := linkCLSID lnkFile, valid := True\<rparr> = lnkFile"
      using header_of_update [OF i, where tz = tz and buf = buf and b = b and tgt = tgt] vl unfolding f by simp
    have h1: "headerSize ?H = int32_at ?buf' 0"
      and h2: "linkCLSID ?H = guidFromIDLBytes (take 16 (drop 4 ?buf'))"
      by (simp_all add: header_of_def Let_def o' bf' sliceJS_def)
    have h3: "linkFlags ?H = int32_at buf 20"
      and h4: "targetAttributeFlags ?H = int32_at buf 24"
      and h5: "targetCreationDate ?H = filetime_at tz buf 28"
      and h6: "targetAccessDate ?H = filetime_at tz buf 36"
      and h7: "targetWriteDate ?H = filetime_at tz buf 44"
      and h8: "targetFileSize ?H = uint32_at buf 52"
      and h9: "icon ?H = Some \<lparr>location = [], iconIndex = int32_at buf 56\<rparr>"
      and h10: "showCommand ?H = normalize_showCommand (uint32_at buf 60)"
      and h11: "hotKey ?H = \<lparr>keyCode = elem_at buf 64, modifierFlags = elem_at buf 65\<rparr>"
      and h12: "target ?H = Inr tgt"
      using i
      by (simp_all add: header_of_def Let_def o' bf' int32_at_update uint32_at_update
          filetime_at_update elem_at_update_other)
    show ?thesis
      apply (rule exI [of _ ?H])
      apply (intro conjI)
      apply (rule ph, rule refl, rule nv, rule h1, rule h2, rule h3, rule h4, rule h5, rule h6,
          rule h7, rule h8, rule h9, rule h10, rule h11, rule h12, rule fr)
      done
  qed
  have c3': "valid lnkFile \<and> i < 20 \<and> b \<noteq> buf ! i \<longrightarrow> (\<exists>lnkFile'.
                 parseHeader tz advance (new_LNKParser (buf[i := b]))
                   = Some (Inr lnkFile', new_LNKParser (buf[i := b]))
                 \<and> lnkFile' = header_of tz (new_LNKParser (buf[i := b])) tgt
                 \<and> \<not> valid lnkFile'
                 \<and> headerSize lnkFile' = int32_at (buf[i := b]) 0
                 \<and> linkCLSID lnkFile' = guidFromIDLBytes (take 16 (drop 4 (buf[i := b])))
                 \<and> linkFlags lnkFile' = int32_at buf 20
                 \<and> targetAttributeFlags lnkFile' = int32_at buf 24
                 \<and> targetCreationDate lnkFile' = filetime_at tz buf 28
                 \<and> targetAccessDate lnkFile' = filetime_at tz buf 36
                 \<and> targetWriteDate lnkFile' = filetime_at tz buf 44
                 \<and> targetFileSize lnkFile' = uint32_at buf 52
                 \<and> icon lnkFile' = Some \<lparr>location = [], iconIndex = int32_at buf 56\<rparr>
                 \<and> showCommand lnkFile' = normalize_showCommand (uint32_at buf 60)
                 \<and> hotKey lnkFile' = \<lparr>keyCode = elem_at buf 64, modifierFlags = elem_at buf 65\<rparr>
                 \<and> target lnkFile' = Inr tgt
                 \<and> lnkFile'\<lparr>headerSize := headerSize lnkFile, linkCLSID := linkCLSID lnkFile,
                              valid := True\<rparr> = lnkFile)"
    using c3 by (intro impI) (elim conjE)
  show ?thesis
    apply (rule exI [of _ idList], rule exI [of _ path], rule exI [of _ tgt])
    apply (intro conjI)
    apply (rule p0, rule g, rule f, rule c1, rule format_clsid, rule c2, rule c3')
    done
qed


theorem header_valid_iff_witness:
  "parseHeader 0 True (new_LNKParser minimal_lnk) = Some (Inr minimal_record, new_LNKParser minimal_lnk)
   \<and> valid minimal_record \<and> take 20 minimal_lnk = header_magic
   \<and> (0::nat) < 20 \<and> (0x4D::byte) \<noteq> minimal_lnk ! 0
   \<and> parseHeader 0 True (new_LNKParser (minimal_lnk[0 := 0x4D]))
       = Some (Inr (minimal_record\<lparr>headerSize := 77, valid := False\<rparr>),
               new_LNKParser (minimal_lnk[0 := 0x4D]))"
proof -
  have v: "valid minimal_record" by (simp add: minimal_record_def)
  have n: "(0x4D::byte) \<noteq> minimal_lnk ! 0" by (simp add: minimal_lnk_def minimal_header_def)
  from header_valid_iff [OF parse_minimal_a, of 0 "0x4D"] obtain idList path tgt where
    p: "LinkTargetIDList_parse (drop 76 minimal_lnk) = Some (Inr idList)"
    and g: "getPath idList = Inr (path, tgt)"
    and m: "valid minimal_record \<longleftrightarrow> take 20 minimal_lnk = header_magic"
    and c: "valid minimal_record \<and> (0::nat) < 20 \<and> (0x4D::byte) \<noteq> minimal_lnk ! 0 \<longrightarrow>
       (\<exists>lnkFile'. parseHeader 0 True (new_LNKParser (minimal_lnk[0 := 0x4D]))
                   = Some (Inr lnkFile', new_LNKParser (minimal_lnk[0 := 0x4D]))
                 \<and> lnkFile' = header_of 0 (new_LNKParser (minimal_lnk[0 := 0x4D])) tgt)"
    by blast
  from p have il: "idList = \<lparr>LinkTargetIDList.valid = True, items = [], cachedPath = None\<rparr>"
    by (simp add: minimal_idlist)
  from g have t: "tgt = \<lparr>LinkTargetIDList.valid = True, items = [], cachedPath = Some []\<rparr>"
    unfolding il by (simp add: getPath_def)
  from c v n have "parseHeader 0 True (new_LNKParser (minimal_lnk[0 := 0x4D]))
       = Some (Inr (header_of 0 (new_LNKParser (minimal_lnk[0 := 0x4D])) tgt),
               new_LNKParser (minimal_lnk[0 := 0x4D]))"
    by auto
  then have q: "parseHeader 0 True (new_LNKParser (minimal_lnk[0 := 0x4D]))
       = Some (Inr (minimal_record\<lparr>headerSize := 77, valid := False\<rparr>),
               new_LNKParser (minimal_lnk[0 := 0x4D]))"
    unfolding t minimal_changed .
  from m v have k: "take 20 minimal_lnk = header_magic" by simp
  from parse_minimal_a v k n q show ?thesis by simp
qed


text \<open>
  C8. The show command of the record that \<open>parseHeader\<close> returns is one of the three
  recognised constants: it is the decoded 32-bit value when that is 1, 3 or 7, and
  \<open>Normal\<close> otherwise. Whatever four bytes stand in the show-command field, \<open>parseHeader\<close>
  still returns a record, with every other field unchanged.
\<close>

theorem showCommand_normalized:
  assumes "parseHeader tz advance this = Some (Inr lnkFile, this')"
  shows "(showCommand lnkFile = Normal \<or> showCommand lnkFile = Maximized
            \<or> showCommand lnkFile = MinimizedWithoutFocus)
       \<and> (\<exists>v. readUInt32LE (buffer this) (offset this + 60) = Inr v
              \<and> showCommand lnkFile =
                  (if v = Normal \<or> v = Maximized \<or> v = MinimizedWithoutFocus then v else Normal))
       \<and> parseHeader tz advance
            (this\<lparr>buffer := (buffer this)[offset this + 60 := w0, offset this + 61 := w1,
                                            offset this + 62 := w2, offset this + 63 := w3]\<rparr>)
          = Some (Inr (lnkFile\<lparr>showCommand :=
                          (let v = int (uintLE [w0, w1, w2, w3])
                           in if v = Normal \<or> v = Maximized \<or> v = MinimizedWithoutFocus
                              then v else Normal)\<rparr>),
                  this\<lparr>buffer := (buffer this)[offset this + 60 := w0, offset this + 61 := w1,
                                                  offset this + 62 := w2, offset this + 63 := w3]\<rparr>)"
proof -
  from assms obtain idList path tgt where
    len: "offset this + 78 \<le> length (buffer this)"
    and p: "LinkTargetIDList_parse (drop (offset this + 76) (buffer this)) = Some (Inr idList)"
    and g: "getPath idList = Inr (path, tgt)" and f: "lnkFile = header_of tz this tgt"
    by (rule parseHeader_InrE)
  have sc: "showCommand lnkFile = normalize_showCommand (uint32_at (buffer this) (offset this + 60))"
    by (simp add: f header_of_def Let_def)
  have rd: "readUInt32LE (buffer this) (offset this + 60) = Inr (uint32_at (buffer this) (offset this + 60))"
    using len by (intro readUInt32LE_ok) simp
  have c1: "showCommand lnkFile = Normal \<or> showCommand lnkFile = Maximized
            \<or> showCommand lnkFile = MinimizedWithoutFocus"
    unfolding sc by (rule normalize_showCommand_cases)
  have c2: "\<exists>v. readUInt32LE (buffer this) (offset this + 60) = Inr v
              \<and> showCommand lnkFile =
                  (if v = Normal \<or> v = Maximized \<or> v = MinimizedWithoutFocus then v else Normal)"
    unfolding sc rd
    by (simp add: normalize_showCommand_def Normal_def Maximized_def MinimizedWithoutFocus_def)
  let ?buf' = "(buffer this)[offset this + 60 := w0, offset this + 61 := w1,
                             offset this + 62 := w2, offset this + 63 := w3]"
  let ?Q = "this\<lparr>buffer := ?buf'\<rparr>"
  have long: "offset this + 64 \<le> length (buffer this)" using len by simp
  have long': "offset ?Q + 64 \<le> length (buffer ?Q)" using len by simp
  have d: "drop (offset this + 76) ?buf' = drop (offset this + 76) (buffer this)"
    by (simp add: drop_update_cancel)
  have n: "(let v = int (uintLE [w0, w1, w2, w3])
            in if v = Normal \<or> v = Maximized \<or> v = MinimizedWithoutFocus then v else Normal)
           = normalize_showCommand (int (uintLE [w0, w1, w2, w3]))"
    by (simp add: normalize_showCommand_def Normal_def Maximized_def MinimizedWithoutFocus_def Let_def)
  have c3: "parseHeader tz advance ?Q
          = Some (Inr (lnkFile\<lparr>showCommand :=
                          (let v = int (uintLE [w0, w1, w2, w3])
                           in if v = Normal \<or> v = Maximized \<or> v = MinimizedWithoutFocus
                              then v else Normal)\<rparr>), ?Q)"
    unfolding parseHeader_long [OF long'] n f header_of_patch [OF long, symmetric]
    using p g by (simp add: d)
  from c1 c2 c3 show ?thesis by (intro conjI)
qed


theorem showCommand_normalized_witness:
  "parseHeader 0 True (new_LNKParser minimal_lnk) = Some (Inr minimal_record, new_LNKParser minimal_lnk)
   \<and> showCommand minimal_record = Normal
   \<and> readUInt32LE minimal_lnk 60 = Inr 1
   \<and> parseHeader 0 True (new_LNKParser (minimal_lnk[60 := 5, 61 := 0, 62 := 0, 63 := 0]))
       = Some (Inr minimal_record, new_LNKParser (minimal_lnk[60 := 5, 61 := 0, 62 := 0, 63 := 0]))"
proof -
  have r: "readUInt32LE minimal_lnk 60 = Inr 1"
    by (simp add: readUInt32LE_def readUIntLE_def sliceJS_def minimal_lnk_def minimal_header_def)
  have s: "showCommand minimal_record = Normal" by (simp add: minimal_record_def Normal_def)
  have m: "minimal_record\<lparr>showCommand := Normal\<rparr> = minimal_record"
    by (simp add: minimal_record_def Normal_def)
  from showCommand_normalized [OF parse_minimal_a, of 5 0 0 0] r s parse_minimal_a
  show ?thesis
    by (simp add: new_LNKParser_def Normal_def Maximized_def MinimizedWithoutFocus_def m [unfolded Normal_def])
qed


text \<open>
  C9. The smallest well-formed file, a valid 76-byte header followed by an ID list with the
  size prefix 2 (and any bytes after it), parses to a record with \<open>valid\<close> true, the show
  command \<open>Normal\<close> and an empty reconstructed path, whatever the timezone offset.
\<close>

theorem minimal_file_parses:
  "\<exists>lnkFile tgt.
     parse tz (new_LNKParser (minimal_header @ [2, 0] @ rest))
       = Some (Inr lnkFile, new_LNKParser (minimal_header @ [2, 0] @ rest))
     \<and> valid lnkFile \<and> showCommand lnkFile = Normal
     \<and> target lnkFile = Inr tgt \<and> items tgt = [] \<and> cachedPath tgt = Some []"
proof -
  let ?buf = "minimal_header @ 2 # 0 # rest"
  let ?P = "new_LNKParser ?buf"
  let ?tgt = "\<lparr>LinkTargetIDList.valid = True, items = [], cachedPath = Some []\<rparr>"
  have lh: "length minimal_header = 76" by (simp add: minimal_header_def)
  have o: "offset ?P = 0" and bf: "buffer ?P = ?buf" by (simp_all add: new_LNKParser_def)
  have long: "offset ?P + 64 \<le> length (buffer ?P)" by (simp add: o bf lh)
  have d: "drop 76 ?buf = 2 # 0 # rest" using lh by simp
  have p: "LinkTargetIDList_parse (2 # 0 # rest) =
       Some (Inr \<lparr>LinkTargetIDList.valid = True, items = [], cachedPath = None\<rparr>)"
    by (simp add: LinkTargetIDList_parse_def readUIntLE_def sliceJS_def parse_loop.simps)
  have ph: "parseHeader tz True ?P = Some (Inr (header_of tz ?P ?tgt), ?P)"
    unfolding parseHeader_long [OF long] by (simp add: o bf lh p getPath_def)
  have t20: "take 20 ?buf = header_magic"
    by (simp add: minimal_header_def header_magic_def)
  have v: "valid (header_of tz ?P ?tgt)"
    unfolding valid_header_of o bf using valid_iff_magic [of ?buf] t20 lh by simp
  have "uint32_at ?buf 60 = 1"
    by (simp add: uint32_at_def sliceJS_def minimal_header_def)
  then have s: "showCommand (header_of tz ?P ?tgt) = Normal"
    by (simp add: header_of_def Let_def o bf normalize_showCommand_def Normal_def)
  have t: "target (header_of tz ?P ?tgt) = Inr ?tgt"
    by (simp add: header_of_def Let_def)
  show ?thesis
  proof (intro exI conjI)
    show "parse tz (new_LNKParser (minimal_header @ [2, 0] @ rest))
       = Some (Inr (header_of tz ?P ?tgt), new_LNKParser (minimal_header @ [2, 0] @ rest))"
      using ph by (simp add: parse_def)
    show "valid (header_of tz ?P ?tgt)" by (rule v)
    show "showCommand (header_of tz ?P ?tgt) = Normal" by (rule s)
    show "target (header_of tz ?P ?tgt) = Inr ?tgt" by (rule t)
    show "items ?tgt = []" by simp
    show "cachedPath ?tgt = Some []" by simp
  qed
qed


text \<open>
  C10. Whether \<open>parse\<close> returns a record or throws, it leaves the parser as it received
  it, the read cursor included, and a second call on the same parser, for the same timezone
  offset, gives the same result.
\<close>

theorem parse_leaves_parser_unchanged:
  assumes "parse tz this = Some (result, this')"
  shows "offset this' = offset this \<and> this' = this \<and> parse tz this' = Some (result, this')"
proof -
  from assms have "parseHeader tz True this = Some (result, this')" by (simp only: parse_def)
  then have "this' = this" by (rule parseHeader_state)
  with assms show ?thesis by simp
qed

theorem parse_leaves_parser_unchanged_witness:
  "parse 0 (new_LNKParser minimal_lnk) = Some (Inr minimal_record, new_LNKParser minimal_lnk)
   \<and> offset (new_LNKParser minimal_lnk) = 0"
  using parse_leaves_parser_unchanged [OF parse_minimal] parse_minimal
  by (simp add: new_LNKParser_def)

section \<open>The claims about the ID list\<close>

lemma uintLE_le16: "n < 65536 \<Longrightarrow> uintLE (le16 n) = n"
proof -
  assume n: "n < 65536"
  then have d: "n div 256 < 256" by simp
  have m: "n mod 256 < 256" by simp
  have "unat (word_of_nat (n mod 256) :: byte) = n mod 256"
    using m by (simp add: unat_of_nat take_bit_nat_eq_self)
  moreover have "unat (word_of_nat (n div 256) :: byte) = n div 256"
    using d by (simp add: unat_of_nat take_bit_nat_eq_self)
  ultimately show ?thesis by (simp add: le16_def)
qed

lemma length_le16 [simp]: "length (le16 n) = 2"
  by (simp add: le16_def)

lemma length_frame [simp]: "length (frame f) = frame_size f"
  by (simp add: frame_def frame_size_def)

lemma frame_size_ge3: "3 \<le> frame_size f"
  by (simp add: frame_size_def)

lemma length_concat_frames: "length (concat (map frame fs)) = frames_size fs"
  by (induction fs) (simp_all add: frames_size_def)

lemma frames_size_Cons: "frames_size (f # fs) = frame_size f + frames_size fs"
  by (simp add: frames_size_def)

lemma frames_size_append: "frames_size (fs @ gs) = frames_size fs + frames_size gs"
  by (simp add: frames_size_def)

lemma parse_loop_step_frame:
  assumes "frame_size f < 65536" and "0 \<le> r"
  shows "parse_loop (pre @ frame f @ post) (length pre) (int (frame_size f) + r) acc =
         parse_loop (pre @ frame f @ post) (length pre + frame_size f) r
           (acc @ [\<lparr>itemType = fst f,
                     itemValue = sliceJS (pre @ frame f @ post) (length pre + 3) (length pre + 3 + frame_size f)\<rparr>])"
proof -
  let ?B = "pre @ frame f @ post"
  have gt: "2 < int (frame_size f) + r" using frame_size_ge3 [of f] assms(2) by linarith
  have "sliceJS ?B (length pre) (length pre + 2) = le16 (frame_size f)"
    by (simp add: sliceJS_def frame_def)
  moreover have ge: "2 \<le> frame_size f" using frame_size_ge3 [of f] by simp
  ultimately have rd: "readUInt16LE ?B (length pre) = Inr (frame_size f)"
    using assms(1) by (simp add: readUInt16LE_def readUIntLE_def uintLE_le16)
  have el: "elem_at ?B (length pre + 2) = Some (fst f)"
    by (simp add: elem_at_def nth_append frame_def)
  have sl: "sliceJS ?B (length pre + 2 + 1) (length pre + 2 + frame_size f + 1)
      = sliceJS ?B (length pre + 3) (length pre + 3 + frame_size f)"
    by (rule arg_cong2 [where f = "sliceJS ?B"]) arith+
  have ro: "length pre + 2 + frame_size f - 2 = length pre + frame_size f" by simp
  have rm: "int (frame_size f) + r - int (frame_size f) = r" by simp
  show ?thesis
    by (subst parse_loop.simps)
      (simp only: gt rd el sl ro rm Let_def if_True sum.case new_LinkTargetIDItem_def option.case)
qed


lemma parse_loop_frames:
  assumes "\<forall>f\<in>set fs. frame_size f < 65536" and "0 \<le> r"
  shows "parse_loop (pre @ concat (map frame fs) @ post) (length pre) (int (frames_size fs) + r) acc =
         parse_loop (pre @ concat (map frame fs) @ post) (length pre + frames_size fs) r
           (acc @ parsed_items (pre @ concat (map frame fs) @ post) (length pre) fs)"
  using assms(1)
proof (induction fs arbitrary: pre acc)
  case Nil
  then show ?case by (simp add: frames_size_def)
next
  case (Cons f fs)
  let ?B = "pre @ concat (map frame (f # fs)) @ post"
  let ?item = "\<lparr>itemType = fst f,
                  itemValue = sliceJS ?B (length pre + 3) (length pre + 3 + frame_size f)\<rparr>"
  have B1: "?B = pre @ frame f @ (concat (map frame fs) @ post)" by simp
  have B2: "?B = (pre @ frame f) @ concat (map frame fs) @ post" by simp
  have f: "frame_size f < 65536" and fs: "\<forall>g\<in>set fs. frame_size g < 65536"
    using Cons.prems by simp_all
  have r': "0 \<le> int (frames_size fs) + r" using assms(2) by simp
  have "parse_loop ?B (length pre) (int (frames_size (f # fs)) + r) acc
      = parse_loop ?B (length pre) (int (frame_size f) + (int (frames_size fs) + r)) acc"
    by (simp add: frames_size_Cons add.assoc)
  also have "\<dots> = parse_loop ?B (length pre + frame_size f) (int (frames_size fs) + r) (acc @ [?item])"
    unfolding B1 by (rule parse_loop_step_frame [OF f r'])
  also have "\<dots> = parse_loop ?B (length (pre @ frame f)) (int (frames_size fs) + r) (acc @ [?item])"
    by simp
  also have "\<dots> = parse_loop ?B (length (pre @ frame f) + frames_size fs) r
                      ((acc @ [?item]) @ parsed_items ?B (length (pre @ frame f)) fs)"
    unfolding B2 by (rule Cons.IH [OF fs])
  also have "\<dots> = parse_loop ?B (length pre + frames_size (f # fs)) r
                      (acc @ parsed_items ?B (length pre) (f # fs))"
    by (simp add: frames_size_Cons add.assoc)
  finally show ?case .
qed

lemma length_parsed_items [simp]: "length (parsed_items buf pos fs) = length fs"
  by (induction fs arbitrary: pos) simp_all

lemma itemType_parsed_items: "map itemType (parsed_items buf pos fs) = map fst fs"
  by (induction fs arbitrary: pos) simp_all

lemma take_parsed_items: "take k (parsed_items buf pos fs) = parsed_items buf pos (take k fs)"
proof (induction fs arbitrary: k pos)
  case Nil
  then show ?case by simp
next
  case (Cons f fs)
  then show ?case by (cases k) simp_all
qed

lemma frame_size_le_frames_size: "f \<in> set fs \<Longrightarrow> frame_size f \<le> frames_size fs"
  unfolding frames_size_def by (induction fs) auto

lemma frames_size_take_drop: "frames_size (take k fs) + frames_size (drop k fs) = frames_size fs"
  using frames_size_append [of "take k fs" "drop k fs"] by simp


text \<open>
  C3. For every well-formed ID list (followed by any bytes), \<open>parse\<close> reads the size
  prefix \<open>S\<close>, and its loop returns: after \<open>k\<close> iterations it has pushed the first \<open>k\<close>
  items, the cursor has advanced by their sizes and the remaining count has dropped by
  the same amount, so each iteration consumes one item; the loop ends with one item per
  frame, the remaining count 2 and the cursor at 2 plus the sum of the item sizes. The
  cursor and the 2 bytes that remain for the terminator add up to the length of the list:
  the sum of the item sizes plus the 2 size-prefix bytes plus the 2 terminator bytes.
\<close>

theorem parse_consumes_declared_size:
  assumes "frames_size fs + 2 < 65536"
  shows "readUIntLE (idlist_bytes fs @ rest) 0 2 = Inr (frames_size fs + 2)
       \<and> (\<forall>k\<le>length fs.
             parse_loop (idlist_bytes fs @ rest) 2 (int (frames_size fs + 2)) []
               = parse_loop (idlist_bytes fs @ rest) (2 + frames_size (take k fs))
                   (int (frames_size fs + 2) - int (frames_size (take k fs)))
                   (take k (parsed_items (idlist_bytes fs @ rest) 2 fs)))
       \<and> parse_loop (idlist_bytes fs @ rest) 2 (int (frames_size fs + 2)) []
             = Some (Inr (parsed_items (idlist_bytes fs @ rest) 2 fs, 2 + frames_size fs, 2))
       \<and> length (parsed_items (idlist_bytes fs @ rest) 2 fs) = length fs
       \<and> map itemType (parsed_items (idlist_bytes fs @ rest) 2 fs) = map fst fs
       \<and> 2 + frames_size fs + 2 = length (idlist_bytes fs)
       \<and> LinkTargetIDList_parse (idlist_bytes fs @ rest)
             = Some (Inr \<lparr>LinkTargetIDList.valid = True,
                            items = parsed_items (idlist_bytes fs @ rest) 2 fs,
                            cachedPath = None\<rparr>)"
proof -
  let ?S = "frames_size fs + 2"
  let ?B = "idlist_bytes fs @ rest"
  have small: "\<forall>f\<in>set gs. frame_size f < 65536" if "set gs \<subseteq> set fs" for gs
  proof
    fix f assume "f \<in> set gs"
    with that have "f \<in> set fs" by blast
    from frame_size_le_frames_size [OF this] assms show "frame_size f < 65536" by simp
  qed
  have c1: "readUIntLE ?B 0 2 = Inr ?S"
    using assms by (simp add: readUIntLE_def sliceJS_def idlist_bytes_def uintLE_le16)
  have inv: "parse_loop ?B 2 (int ?S) []
       = parse_loop ?B (2 + frames_size (take k fs)) (int ?S - int (frames_size (take k fs)))
           (take k (parsed_items ?B 2 fs))" for k
  proof -
    let ?pre = "le16 ?S"
    let ?post = "concat (map frame (drop k fs)) @ [0, 0] @ rest"
    have B: "?B = ?pre @ concat (map frame (take k fs)) @ ?post"
    proof -
      have "concat (map frame fs) = concat (map frame (take k fs @ drop k fs))" by simp
      also have "\<dots> = concat (map frame (take k fs)) @ concat (map frame (drop k fs))"
        by (simp only: map_append concat_append)
      finally show ?thesis by (simp add: idlist_bytes_def)
    qed
    have r: "0 \<le> int (frames_size (drop k fs)) + 2" by simp
    have e: "int ?S = int (frames_size (take k fs)) + (int (frames_size (drop k fs)) + 2)"
      using frames_size_take_drop [of k fs] by simp
    have "parse_loop ?B (length ?pre) (int (frames_size (take k fs)) + (int (frames_size (drop k fs)) + 2)) []
        = parse_loop ?B (length ?pre + frames_size (take k fs)) (int (frames_size (drop k fs)) + 2)
            ([] @ parsed_items ?B (length ?pre) (take k fs))"
      unfolding B by (rule parse_loop_frames [OF small r]) (rule set_take_subset)
    then show ?thesis
      unfolding e by (simp add: take_parsed_items)
  qed
  have c3: "parse_loop ?B 2 (int ?S) [] = Some (Inr (parsed_items ?B 2 fs, 2 + frames_size fs, 2))"
    using inv [of "length fs"] by (simp add: parse_loop.simps)
  have c6: "2 + frames_size fs + 2 = length (idlist_bytes fs)"
    by (simp add: idlist_bytes_def length_concat_frames)
  have c7: "LinkTargetIDList_parse ?B
             = Some (Inr \<lparr>LinkTargetIDList.valid = True, items = parsed_items ?B 2 fs, cachedPath = None\<rparr>)"
    unfolding LinkTargetIDList_parse_def c1 using c3 by simp
  from c1 inv c3 c6 c7 show ?thesis
    by (intro conjI allI impI length_parsed_items itemType_parsed_items)
qed


theorem parse_consumes_declared_size_witness:
  "frames_size [(0x2f, [0x43]), (0x32, [0x41, 0x42])] + 2 < 65536
   \<and> idlist_bytes [(0x2f, [0x43]), (0x32, [0x41, 0x42])] = two_item_list
   \<and> parse_loop two_item_list 2 11 []
       = Some (Inr ([\<lparr>itemType = 0x2f, itemValue = [0x43, 5, 0, 0x32]\<rparr>,
                     \<lparr>itemType = 0x32, itemValue = [0x41, 0x42, 0, 0]\<rparr>], 11, 2))
   \<and> 11 + 2 = length two_item_list"
proof -
  have s: "frames_size [(0x2f, [0x43]), (0x32, [0x41, 0x42])] = 9"
    by (simp add: frames_size_def frame_size_def)
  have b: "idlist_bytes [(0x2f, [0x43]), (0x32, [0x41, 0x42])] = two_item_list"
    by (simp add: idlist_bytes_def s frame_def frame_size_def le16_def two_item_list_def)
  have p: "parsed_items two_item_list 2 [(0x2f, [0x43]), (0x32, [0x41, 0x42])]
      = [\<lparr>itemType = 0x2f, itemValue = [0x43, 5, 0, 0x32]\<rparr>,
         \<lparr>itemType = 0x32, itemValue = [0x41, 0x42, 0, 0]\<rparr>]"
    by (simp add: frame_size_def sliceJS_def two_item_list_def)
  have l: "length two_item_list = 13" by (simp add: two_item_list_def)
  have lt: "frames_size [(0x2f, [0x43]), (0x32, [0x41, 0x42])] + 2 < 65536" by (simp add: s)
  note c = parse_consumes_declared_size [OF lt, of "[]", THEN conjunct2, THEN conjunct2, THEN conjunct1]
  have "parse_loop two_item_list 2 11 []
       = Some (Inr ([\<lparr>itemType = 0x2f, itemValue = [0x43, 5, 0, 0x32]\<rparr>,
                     \<lparr>itemType = 0x32, itemValue = [0x41, 0x42, 0, 0]\<rparr>], 11, 2))"
    using c unfolding append_Nil2 b p s by simp
  with lt b l show ?thesis by simp
qed



lemma getPath_step_driveLetter_C: "getPath_step [] driveLetter_C = Inr (str ''C:'' @ [backslash])"
  by (simp add: driveLetter_C_def getPath_step_def DriveLetter_def RootEntry_def sliceJS_def
      fromCharCode_def str_def backslash_def)


lemma getPath_list_C:
  "getPath (list_of_items [driveLetter_C])
     = Inr (str ''C:'' @ [backslash],
            (list_of_items [driveLetter_C])\<lparr>cachedPath := Some (str ''C:'' @ [backslash])\<rparr>)"
  by (simp add: getPath_def list_of_items_def getPath_step_driveLetter_C)


text \<open>
  C4, evaluated on a well-formed list of two items. The first item has size 4, so one
  payload byte (\<open>0x43\<close>); \<open>parse\<close> stores four bytes for it, the last three being the size
  field and the tag of the second item. The value of an item is cut \<open>itemSize\<close> bytes long
  from the byte after the tag, not \<open>itemSize - 3\<close>.
\<close>

theorem parse_item_value_overreads:
  "LinkTargetIDList_parse two_item_list =
     Some (Inr \<lparr>LinkTargetIDList.valid = True,
                items = [\<lparr>itemType = DriveLetter, itemValue = [0x43, 5, 0, 0x32]\<rparr>,
                         \<lparr>itemType = File, itemValue = [0x41, 0x42, 0, 0]\<rparr>],
                cachedPath = None\<rparr>)"
  by (simp add: two_item_list_def LinkTargetIDList_parse_def readUIntLE_def readUInt16LE_def sliceJS_def
      parse_loop.simps elem_at_def new_LinkTargetIDItem_def DriveLetter_def File_def Let_def)





text \<open>
  C7, as the source has it. \<open>getPath\<close> never reads \<open>cachedPath\<close>: every call computes
  the path from the items the list holds at that moment and stores it. A second call gives
  the first path again when the items are the same, and after the items were replaced it
  gives what a first call on the new items gives.
\<close>

theorem getPath_recomputes:
  assumes "getPath l = Inr (path, l')"
  shows "cachedPath l' = Some path \<and> items l' = items l
       \<and> getPath l' = Inr (path, l')
       \<and> getPath (l'\<lparr>items := its\<rparr>) = getPath (l\<lparr>items := its\<rparr>)
       \<and> (\<forall>path2 l2. getPath (l'\<lparr>items := its\<rparr>) = Inr (path2, l2) \<longrightarrow>
             getPath_loop [] its = Inr path2 \<and> cachedPath l2 = Some path2)"
proof -
  from assms have p: "getPath_loop [] (items l) = Inr path" and l': "l' = l\<lparr>cachedPath := Some path\<rparr>"
    by (auto simp: getPath_def split: sum.splits)
  show ?thesis
    by (auto simp: l' getPath_def p split: sum.splits)
qed

theorem getPath_recomputes_witness:
  "getPath (list_of_items [driveLetter_C])
     = Inr (str ''C:'' @ [backslash], (list_of_items [driveLetter_C])\<lparr>cachedPath := Some (str ''C:'' @ [backslash])\<rparr>)
   \<and> getPath ((list_of_items [driveLetter_C])\<lparr>cachedPath := Some (str ''C:'' @ [backslash]), items := []\<rparr>)
     = getPath ((list_of_items [driveLetter_C])\<lparr>items := []\<rparr>)"
proof -
  note g = getPath_list_C
  from getPath_recomputes [OF g, of "[]"] have
    "getPath ((list_of_items [driveLetter_C])\<lparr>cachedPath := Some (str ''C:'' @ [backslash]), items := []\<rparr>)
     = getPath ((list_of_items [driveLetter_C])\<lparr>items := []\<rparr>)"
    by (elim conjE)
  with g show ?thesis by (intro conjI)
qed


text \<open>
  The claim as stated fails: after the items are emptied, the second call returns the
  empty path and not the path of the first call.
\<close>

theorem getPath_cache_counterexample:
  "getPath (list_of_items [driveLetter_C])
     = Inr (str ''C:'' @ [backslash], (list_of_items [driveLetter_C])\<lparr>cachedPath := Some (str ''C:'' @ [backslash])\<rparr>)
   \<and> getPath ((list_of_items [driveLetter_C])\<lparr>cachedPath := Some (str ''C:'' @ [backslash]), items := []\<rparr>)
     = Inr ([], (list_of_items [driveLetter_C])\<lparr>cachedPath := Some [], items := []\<rparr>)
   \<and> [] \<noteq> str ''C:'' @ [backslash]"
proof -
  have "getPath ((list_of_items [driveLetter_C])\<lparr>cachedPath := Some (str ''C:'' @ [backslash]), items := []\<rparr>)
     = Inr ([], (list_of_items [driveLetter_C])\<lparr>cachedPath := Some [], items := []\<rparr>)"
    by (simp add: getPath_def list_of_items_def)
  moreover have "[] \<noteq> str ''C:'' @ [backslash]" by simp
  ultimately show ?thesis using getPath_list_C by (intro conjI)
qed

section \<open>The claim about the timestamp decoder\<close>

text \<open>
  C2, as the source has it. The constant that \<open>dateFromFILETIME\<close> subtracts is
  \<open>116444736e5\<close>, that is 11,644,473,600,000 ms. For every 64-bit tick count \<open>t\<close> and a
  timezone offset of at most a day, the decoder returns a valid date whose time value is
  within 1.5 ms of \<open>t / 10000 - 11644473600000 - z\<close>, where \<open>z\<close> is the timezone offset in
  milliseconds; the difference comes from the rounding of the double arithmetic and from
  the truncation to whole milliseconds. When \<open>t\<close> is a multiple of 10,000 below \<open>2^57\<close> in
  magnitude, the time value is exactly \<open>t / 10000 - 11644473600000 - z\<close>.
\<close>

theorem dateFromFILETIME_value:
  assumes "- (2 ^ 63) \<le> t" and "t < 2 ^ 63" and "\<bar>tz\<bar> \<le> 1440"
  shows "(\<exists>r. dateFromFILETIME tz (Number t) = Some r
            \<and> \<bar>of_int r - (of_int t / 10000 - 11644473600000 - of_int (tz * 60000))\<bar> < (3 / 2 :: rat))
       \<and> (10000 dvd t \<and> \<bar>t\<bar> < 2 ^ 57 \<longrightarrow>
            dateFromFILETIME tz (Number t) = Some (t div 10000 - 11644473600000 - tz * 60000))"
  using dateFromFILETIME_bound [OF assms] dateFromFILETIME_exact [of t tz] assms(3)
  by (intro conjI impI) (assumption | elim conjE)+

theorem dateFromFILETIME_value_witness:
  "- (2 ^ 63) \<le> (132000000000000000 :: int) \<and> (132000000000000000 :: int) < 2 ^ 63
   \<and> \<bar>- 60 :: int\<bar> \<le> 1440 \<and> (10000 :: int) dvd 132000000000000000
   \<and> dateFromFILETIME (- 60) (Number 132000000000000000) = Some 1555530000000"
  using dateFromFILETIME_value [of 132000000000000000 "- 60"]
  by simp

text \<open>
  The claim as stated fails at the tick count 0 with the timezone offset 0: the decoder
  returns -11,644,473,600,000, not -116,444,736,000,000.
\<close>

theorem dateFromFILETIME_epoch_counterexample:
  "dateFromFILETIME 0 (Number 0) \<noteq> Some (0 div 10000 - 116444736000000 - 0 * 60 * 1000)"
  by (simp add: date_zero)

end
